theory Spec2Isabelle
  imports Complex_Main "HOL-Library.AList"
begin

section \<open>Characters and the character classes of Python's \<open>re\<close> and \<open>str\<close>\<close>

text \<open>
  A Python string is a sequence of code points. The model uses \<^typ>\<open>string\<close>, whose
  characters are the code points 0 to 255 (Latin-1); the classes below are Python's
  \<open>str.isspace\<close> / \<open>\s\<close>, \<open>\d\<close>, \<open>\w\<close> and \<open>str.lower\<close> on that range.
\<close>

definition isspace :: "char \<Rightarrow> bool" where
  "isspace c = (of_char c \<in> {9, 10, 11, 12, 13, 28, 29, 30, 31, 32, 133, 160 :: nat})"

definition is_digit :: "char \<Rightarrow> bool" where
  "is_digit c = (48 \<le> (of_char c :: nat) \<and> (of_char c :: nat) \<le> 57)"

definition is_upper :: "char \<Rightarrow> bool" where
  "is_upper c = (65 \<le> (of_char c :: nat) \<and> (of_char c :: nat) \<le> 90)"

definition is_lower :: "char \<Rightarrow> bool" where
  "is_lower c = (97 \<le> (of_char c :: nat) \<and> (of_char c :: nat) \<le> 122)"

definition is_word :: "char \<Rightarrow> bool" where
  "is_word c = (let n = (of_char c :: nat) in
     is_digit c \<or> is_upper c \<or> is_lower c \<or> n = 95 \<or>
     n \<in> {170, 178, 179, 181, 185, 186, 188, 189, 190} \<or>
     (192 \<le> n \<and> n \<noteq> 215 \<and> n \<noteq> 247))"

definition lower_char :: "char \<Rightarrow> char" where
  "lower_char c = (let n = (of_char c :: nat) in
     if is_upper c \<or> (192 \<le> n \<and> n \<le> 222 \<and> n \<noteq> 215) then char_of (n + 32) else c)"

definition lower :: "string \<Rightarrow> string" where
  "lower s = map lower_char s"

text \<open>\<open>s.strip()\<close>: whitespace removed at both ends.\<close>

definition strip :: "string \<Rightarrow> string" where
  "strip s = rev (dropWhile isspace (rev (dropWhile isspace s)))"

text \<open>\<open>s.split()\<close>: the maximal runs of non-whitespace characters, in order.\<close>

function split :: "string \<Rightarrow> string list" where
  "split s =
     (let s1 = dropWhile isspace s
      in if s1 = [] then []
         else takeWhile (\<lambda>c. \<not> isspace c) s1 # split (dropWhile (\<lambda>c. \<not> isspace c) s1))"
  by pat_completeness auto
termination
proof (relation "measure length", simp)
  fix s s1 :: string
  assume a: "s1 = dropWhile isspace s" "s1 \<noteq> []"
  have "\<not> isspace (hd s1)" using a hd_dropWhile by metis
  then have "dropWhile (\<lambda>c. \<not> isspace c) s1 = dropWhile (\<lambda>c. \<not> isspace c) (tl s1)"
    using a(2) by (cases s1) auto
  then have "length (dropWhile (\<lambda>c. \<not> isspace c) s1) \<le> length (tl s1)"
    using length_dropWhile_le [of "\<lambda>c. \<not> isspace c" "tl s1"] by simp
  moreover have "length (tl s1) < length s1" using a(2) by (cases s1) auto
  moreover have "length s1 \<le> length s" using a(1) by (simp add: length_dropWhile_le)
  ultimately show "(dropWhile (\<lambda>c. \<not> isspace c) s1, s) \<in> measure length" by simp
qed

section \<open>The regular expressions of the program\<close>

text \<open>
  The fragment of \<open>re\<close> that the patterns of the program use: literals, a character
  class repeated greedily between a lower and an optional upper bound, the word
  boundary \<open>\b\<close>, concatenation and ordered alternation. The matcher backtracks as
  \<open>re\<close> does: the first alternative that lets the rest of the pattern match wins, and
  a repetition gives characters back one at a time.
\<close>

datatype rx =
    Lit string
  | Cls "char \<Rightarrow> bool" nat "nat option"
  | WordB
  | Cat rx rx
  | Alt rx rx

type_synonym cont = "char option \<Rightarrow> string \<Rightarrow> string option"

fun last_char :: "char option \<Rightarrow> string \<Rightarrow> char option" where
  "last_char p [] = p"
| "last_char p (c # cs) = last_char (Some c) cs"

definition greedy :: "(char \<Rightarrow> bool) \<Rightarrow> nat option \<Rightarrow> string \<Rightarrow> nat" where
  "greedy P hi s =
     (let m = length (takeWhile P s)
      in case hi of None \<Rightarrow> m | Some h \<Rightarrow> min m h)"

primrec try_back :: "nat \<Rightarrow> nat \<Rightarrow> char option \<Rightarrow> string \<Rightarrow> cont \<Rightarrow> string option" where
  "try_back lo 0 p s k = (if lo = 0 then k p s else None)"
| "try_back lo (Suc n) p s k =
     (if Suc n < lo then None
      else case k (last_char p (take (Suc n) s)) (drop (Suc n) s) of
             Some r \<Rightarrow> Some r
           | None \<Rightarrow> try_back lo n p s k)"

definition word_opt :: "char option \<Rightarrow> bool" where
  "word_opt p = (case p of None \<Rightarrow> False | Some c \<Rightarrow> is_word c)"

definition next_char :: "string \<Rightarrow> char option" where
  "next_char s = (case s of [] \<Rightarrow> None | c # _ \<Rightarrow> Some c)"

primrec rmatch :: "rx \<Rightarrow> char option \<Rightarrow> string \<Rightarrow> cont \<Rightarrow> string option" where
  "rmatch (Lit l) p s k =
     (if take (length l) s = l then k (last_char p l) (drop (length l) s) else None)"
| "rmatch (Cls P lo hi) p s k = try_back lo (greedy P hi s) p s k"
| "rmatch WordB p s k = (if word_opt p \<noteq> word_opt (next_char s) then k p s else None)"
| "rmatch (Cat a b) p s k = rmatch a p s (\<lambda>p' s'. rmatch b p' s' k)"
| "rmatch (Alt a b) p s k =
     (case rmatch a p s k of Some r \<Rightarrow> Some r | None \<Rightarrow> rmatch b p s k)"

text \<open>
  A match of \<open>r\<close> that starts here, after the character \<open>p\<close> and in front of \<open>s\<close>:
  the number of characters it consumes.
\<close>

definition match_at :: "rx \<Rightarrow> char option \<Rightarrow> string \<Rightarrow> nat option" where
  "match_at r p s =
     (case rmatch r p s (\<lambda>_ s'. Some s') of
        None \<Rightarrow> None
      | Some rest \<Rightarrow> Some (length s - length rest))"

text \<open>\<open>re.search(r, s)\<close>: the span \<open>(m.start(), m.end())\<close> of the leftmost match.\<close>

fun search_from :: "rx \<Rightarrow> char option \<Rightarrow> string \<Rightarrow> (nat \<times> nat) option" where
  "search_from r p [] = (case match_at r p [] of None \<Rightarrow> None | Some n \<Rightarrow> Some (0, n))"
| "search_from r p (c # cs) =
     (case match_at r p (c # cs) of
        Some n \<Rightarrow> Some (0, n)
      | None \<Rightarrow> map_option (\<lambda>(a, b). (Suc a, Suc b)) (search_from r (Some c) cs))"

definition search :: "rx \<Rightarrow> string \<Rightarrow> (nat \<times> nat) option" where
  "search r s = search_from r None s"

text \<open>
  \<open>re.findall(r, s)\<close> for a pattern with at most one group that spans the whole match:
  the matched substrings, left to right, each search starting where the last match
  ended. After an empty match the scan moves on by one character; the patterns of the
  program consume at least three characters, so that this case does not arise.
\<close>

function findall_from :: "rx \<Rightarrow> char option \<Rightarrow> string \<Rightarrow> string list" where
  "findall_from r p s =
     (case match_at r p s of
        None \<Rightarrow> (case s of [] \<Rightarrow> [] | c # cs \<Rightarrow> findall_from r (Some c) cs)
      | Some n \<Rightarrow>
          if n = 0
          then [] # (case s of [] \<Rightarrow> [] | c # cs \<Rightarrow> findall_from r (Some c) cs)
          else take n s # findall_from r (last_char p (take n s)) (drop n s))"
  by pat_completeness auto
termination
  by (relation "measure (\<lambda>(r, p, s). length s)")
     (auto simp: match_at_def split: option.splits)

definition findall :: "rx \<Rightarrow> string \<Rightarrow> string list" where
  "findall r s = findall_from r None s"

fun seq :: "rx list \<Rightarrow> rx" where
  "seq [] = Lit []"
| "seq [r] = r"
| "seq (r # rs) = Cat r (seq rs)"

fun alts :: "rx list \<Rightarrow> rx" where
  "alts [] = Lit []"
| "alts [r] = r"
| "alts (r # rs) = Alt r (alts rs)"

definition one :: "(char \<Rightarrow> bool) \<Rightarrow> rx" where
  "one P = Cls P 1 (Some 1)"

text \<open>The least number of characters a match of the pattern consumes.\<close>

fun min_len :: "rx \<Rightarrow> nat" where
  "min_len (Lit l) = length l"
| "min_len (Cls P lo hi) = lo"
| "min_len WordB = 0"
| "min_len (Cat a b) = min_len a + min_len b"
| "min_len (Alt a b) = min (min_len a) (min_len b)"

section \<open>Constants of \<open>preprocess_bgs_pdf.py\<close>\<close>

definition CHUNK_SIZE :: nat where "CHUNK_SIZE = 900"
definition OVERLAP :: nat where "OVERLAP = 150"

text \<open>\<^verbatim>\<open>LTT[- ]?\d{4,5}|[A-Z][a-z]+ Sector [A-Z0-9\- ]+|[A-Z][A-Za-z0-9\- ]{2,}\<close>\<close>

definition SYSTEM_PAT :: rx where
  "SYSTEM_PAT = alts
     [seq [Lit ''LTT'', Cls (\<lambda>c. c = CHR ''-'' \<or> c = CHR '' '') 0 (Some 1),
           Cls is_digit 4 (Some 5)],
      seq [one is_upper, Cls is_lower 1 None, Lit '' Sector '',
           Cls (\<lambda>c. is_upper c \<or> is_digit c \<or> c = CHR ''-'' \<or> c = CHR '' '') 1 None],
      seq [one is_upper,
           Cls (\<lambda>c. is_upper c \<or> is_lower c \<or> is_digit c \<or> c = CHR ''-'' \<or> c = CHR '' '')
             2 None]]"

text \<open>\<^verbatim>\<open>Black Sun Crew|Space Force|Oblivion Fleet|Jerome Archer|Alliance|Empire|Federation\<close>\<close>

definition FACTION_PAT :: rx where
  "FACTION_PAT = alts
     [Lit ''Black Sun Crew'', Lit ''Space Force'', Lit ''Oblivion Fleet'',
      Lit ''Jerome Archer'', Lit ''Alliance'', Lit ''Empire'', Lit ''Federation'']"

text \<open>
  \<^verbatim>\<open>\b(20\d{2}-\d{2}-\d{2}|[A-Z][a-z]{2,9}\s+\d{1,2},\s+20\d{2})\b\<close>;
  the group spans the whole match, the two \<open>\b\<close> being of width zero, so that
  \<open>findall\<close> returns the match itself.
\<close>

definition DATE_PAT :: rx where
  "DATE_PAT = seq
     [WordB,
      alts
        [seq [Lit ''20'', Cls is_digit 2 (Some 2), Lit ''-'', Cls is_digit 2 (Some 2),
              Lit ''-'', Cls is_digit 2 (Some 2)],
         seq [one is_upper, Cls is_lower 2 (Some 9), Cls isspace 1 None,
              Cls is_digit 1 (Some 2), Lit '','', Cls isspace 1 None,
              Lit ''20'', Cls is_digit 2 (Some 2)]],
      WordB]"

text \<open>\<^verbatim>\<open>[\.!\?]\s\<close>, the sentence end looked for after the raw cutoff.\<close>

definition SENT_PAT :: rx where
  "SENT_PAT = seq [one (\<lambda>c. c = CHR ''.'' \<or> c = CHR ''!'' \<or> c = CHR ''?''), one isspace]"

section \<open>\<open>clean\<close>, \<open>toks\<close> and \<open>chunk\<close>\<close>

text \<open>\<open>s or ""\<close>: \<open>None\<close> and the empty string both give the empty string.\<close>

definition or_empty :: "string option \<Rightarrow> string" where
  "or_empty s = (case s of None \<Rightarrow> [] | Some x \<Rightarrow> x)"

text \<open>\<open>re.sub(r"\s+", " ", s)\<close>: every maximal run of whitespace becomes one space.\<close>

function sub_ws :: "string \<Rightarrow> string" where
  "sub_ws [] = []"
| "sub_ws (c # cs) =
     (if isspace c then CHR '' '' # sub_ws (dropWhile isspace cs) else c # sub_ws cs)"
  by pat_completeness auto
termination
  by (relation "measure length") (auto simp: length_dropWhile_le less_Suc_eq_le)

definition clean :: "string option \<Rightarrow> string" where
  "clean s = strip (sub_ws (or_empty s))"

text \<open>\<open>re.sub(r"[^a-z0-9\s\-]", " ", s.lower())\<close>, then \<open>split()\<close>, keeping \<open>len(t) > 2\<close>.\<close>

definition keep_char :: "char \<Rightarrow> bool" where
  "keep_char c = (is_lower c \<or> is_digit c \<or> isspace c \<or> c = CHR ''-'')"

definition toks :: "string option \<Rightarrow> string list" where
  "toks s =
     (let s = map (\<lambda>c. if keep_char c then c else CHR '' '') (lower (or_empty s))
      in filter (\<lambda>t. 2 < length t) (split s))"

text \<open>\<open>text[i:end]\<close> for \<open>0 \<le> i\<close> and \<open>0 \<le> end\<close>.\<close>

definition slice :: "string \<Rightarrow> nat \<Rightarrow> nat \<Rightarrow> string" where
  "slice s i j = take (j - i) (drop i s)"

text \<open>
  The body of the loop of \<open>chunk\<close> up to the \<open>append\<close>: the raw cutoff, the lookahead of
  120 characters and the extension to the sentence end found there.
\<close>

definition window_end :: "string \<Rightarrow> nat \<Rightarrow> nat" where
  "window_end t i =
     (let end = min (i + CHUNK_SIZE) (length t);
          ext = slice t end (end + 120)
      in case search SENT_PAT ext of None \<Rightarrow> end | Some (a, b) \<Rightarrow> end + b)"

text \<open>
  The \<open>while\<close> loop of \<open>chunk\<close>, started at \<open>i\<close>: the pairs \<open>(i, end)\<close> of the windows
  it appends, in order. The loop stops when \<open>i\<close> is not below the length of the text
  and, by \<open>break\<close>, when \<open>end\<close> has reached it; otherwise it goes on at
  \<open>end - OVERLAP\<close>, where \<open>end\<close> is at least \<open>i + CHUNK_SIZE\<close>, so that the difference of
  natural numbers is the difference of Python's integers.
\<close>

function chunk_spans :: "string \<Rightarrow> nat \<Rightarrow> (nat \<times> nat) list" where
  "chunk_spans t i =
     (if i < length t
      then (let end = window_end t i
            in (i, end) # (if length t \<le> end then [] else chunk_spans t (end - OVERLAP)))
      else [])"
  by pat_completeness auto
termination
proof (relation "measure (\<lambda>(t, i). length t - i)", simp)
  fix t :: string and i e :: nat
  assume a: "i < length t" "e = window_end t i" "\<not> length t \<le> e"
  have "min (i + CHUNK_SIZE) (length t) \<le> e"
    unfolding a(2) window_end_def by (simp add: Let_def split: option.splits)
  with a(3) have "i + CHUNK_SIZE \<le> e" by simp
  with a(1) show "((t, e - OVERLAP), (t, i)) \<in> measure (\<lambda>(t, i). length t - i)"
    by (simp add: CHUNK_SIZE_def OVERLAP_def)
qed

record window =
  w_page :: nat
  w_text :: string

definition chunk :: "string option \<Rightarrow> nat \<Rightarrow> window list" where
  "chunk text page =
     (let t = clean text
      in map (\<lambda>(i, end). \<lparr>w_page = page, w_text = slice t i end\<rparr>) (chunk_spans t 0))"

section \<open>\<open>main\<close>\<close>

text \<open>
  The order in which a Python \<open>set\<close> of strings is iterated is not fixed by its
  elements: it follows the hashes of the strings, which change from one run of the
  interpreter to the next. A run is therefore given an iteration order \<open>it\<close>, which
  maps the list a set is built from to the list of its elements as \<open>list(set(xs))\<close>
  and \<open>for w in set(xs)\<close> visit them: each element once.
\<close>

type_synonym set_iter = "string list \<Rightarrow> string list"

definition iter_ok :: "set_iter \<Rightarrow> bool" where
  "iter_ok it = (\<forall>xs. distinct (it xs) \<and> set (it xs) = set xs)"

record chunk_rec =
  c_id :: nat
  c_page :: nat
  c_systems :: "string list"
  c_factions :: "string list"
  c_dates :: "string list"
  c_text :: string

text \<open>The body of the inner loop of \<open>main\<close>: the record appended for the window \<open>c\<close>.\<close>

definition tag :: "set_iter \<Rightarrow> chunk_rec list \<Rightarrow> window \<Rightarrow> chunk_rec" where
  "tag it chunks c =
     (let t = w_text c
      in \<lparr>c_id = length chunks,
          c_page = w_page c,
          c_systems = it (findall SYSTEM_PAT t),
          c_factions = it (findall FACTION_PAT t),
          c_dates = it (findall DATE_PAT t),
          c_text = t\<rparr>)"

text \<open>
  The two nested loops over the pages and the windows of each page. The pages are the
  results of \<open>extract_text()\<close>, \<open>None\<close> included.
\<close>

definition add_page :: "set_iter \<Rightarrow> string option list \<Rightarrow> chunk_rec list \<Rightarrow> nat \<Rightarrow> chunk_rec list" where
  "add_page it pages chunks p =
     (let raw = or_empty (pages ! p)
      in foldl (\<lambda>chunks c. chunks @ [tag it chunks c]) chunks (chunk (Some raw) (p + 1)))"

definition collect :: "set_iter \<Rightarrow> string option list \<Rightarrow> chunk_rec list" where
  "collect it pages = foldl (add_page it pages) [] [0..<length pages]"

text \<open>
  The dictionary \<open>df\<close> keeps its keys in the order of their first insertion, which is
  the order \<open>json.dump\<close> writes them in: an association list, updated in place or
  extended at the end.
\<close>

definition df_incr :: "(string \<times> nat) list \<Rightarrow> string \<Rightarrow> (string \<times> nat) list" where
  "df_incr df w = AList.update w ((case map_of df w of None \<Rightarrow> 0 | Some d \<Rightarrow> d) + 1) df"

definition build_df :: "set_iter \<Rightarrow> chunk_rec list \<Rightarrow> (string \<times> nat) list" where
  "build_df it chunks =
     foldl (\<lambda>df c. foldl df_incr df (it (toks (Some (c_text c))))) [] chunks"

text \<open>
  \<open>math.log((N+1)/(df[w]+1))+1.0\<close>, in exact real arithmetic: the rounding of the
  floating-point division, logarithm and sum is not modelled.
\<close>

definition idf_weight :: "nat \<Rightarrow> nat \<Rightarrow> real" where
  "idf_weight N d = ln (real (N + 1) / real (d + 1)) + 1"

record run_output =
  out_chunks :: "chunk_rec list"
  out_idf :: "(string \<times> real) list"
  out_N :: nat

text \<open>
  \<open>main\<close>, from the pages the reader delivers to the two values that are written with
  \<open>json.dump\<close>: the list of chunks, and the dictionary with \<open>idf\<close> and \<open>N\<close>.
\<close>

definition main :: "set_iter \<Rightarrow> string option list \<Rightarrow> run_output" where
  "main it pages =
     (let chunks = collect it pages;
          df = build_df it chunks;
          N = length chunks;
          idf = map (\<lambda>(w, d). (w, idf_weight N d)) df
      in \<lparr>out_chunks = chunks, out_idf = idf, out_N = N\<rparr>)"

section \<open>Notions the properties are stated with\<close>

text \<open>
  The windows put together again: the first one whole, every later one without the
  \<open>OVERLAP\<close> characters it shares with the one before.
\<close>

fun rebuild :: "string list \<Rightarrow> string" where
  "rebuild [] = []"
| "rebuild (w # ws) = w @ concat (map (drop OVERLAP) ws)"

text \<open>
  The loop of \<open>chunk\<close> with a budget of iterations: \<open>None\<close> when the budget runs out
  before the loop has stopped.
\<close>

fun chunk_fuel :: "nat \<Rightarrow> string \<Rightarrow> nat \<Rightarrow> (nat \<times> nat) list option" where
  "chunk_fuel 0 t i = None"
| "chunk_fuel (Suc n) t i =
     (if i < length t
      then (let end = window_end t i
            in if length t \<le> end then Some [(i, end)]
               else map_option ((#) (i, end)) (chunk_fuel n t (end - OVERLAP)))
      else Some [])"

text \<open>The windows of all pages, in the order of the pages; page \<open>p\<close> is numbered \<open>p + 1\<close>.\<close>

definition all_windows :: "string option list \<Rightarrow> window list" where
  "all_windows pages =
     concat (map (\<lambda>p. chunk (Some (or_empty (pages ! p))) (p + 1)) [0..<length pages])"

text \<open>The document frequency of \<open>w\<close>: the number of chunks whose token set contains it.\<close>

definition doc_freq :: "chunk_rec list \<Rightarrow> string \<Rightarrow> nat" where
  "doc_freq chunks w = length (filter (\<lambda>c. w \<in> set (toks (Some (c_text c)))) chunks)"

text \<open>\<open>df.get(w, 0)\<close>.\<close>

definition lookup0 :: "(string \<times> nat) list \<Rightarrow> string \<Rightarrow> nat" where
  "lookup0 df w = (case map_of df w of None \<Rightarrow> 0 | Some d \<Rightarrow> d)"

text \<open>Every count stored in \<open>df\<close> is positive.\<close>

definition df_pos :: "(string \<times> nat) list \<Rightarrow> bool" where
  "df_pos df = (\<forall>w d. map_of df w = Some d \<longrightarrow> 0 < d)"

text \<open>
  The tokenization in the words of the specification, with the letters and digits
  written out: lower-case the text (an upper-case letter becomes the lower-case letter at
  the same place of the alphabet), replace every character that is not a lower-case
  letter, a digit, whitespace or a hyphen by a space, split on whitespace, and discard the
  tokens of length at most 2.
\<close>

definition upper_letters :: string where
  "upper_letters = ''ABCDEFGHIJKLMNOPQRSTUVWXYZ''"

definition lower_letters :: string where
  "lower_letters = ''abcdefghijklmnopqrstuvwxyz''"

definition digit_chars :: string where
  "digit_chars = ''0123456789''"

definition spec_lower :: "char \<Rightarrow> char" where
  "spec_lower c = (case map_of (zip upper_letters lower_letters) c of Some l \<Rightarrow> l | None \<Rightarrow> c)"

definition spec_replace :: "char \<Rightarrow> char" where
  "spec_replace c =
     (if c \<in> set lower_letters \<or> c \<in> set digit_chars \<or> isspace c \<or> c = CHR ''-''
      then c else CHR '' '')"

definition toks_spec :: "string option \<Rightarrow> string list" where
  "toks_spec s =
     filter (\<lambda>t. \<not> length t \<le> 2) (split (map spec_replace (map spec_lower (or_empty s))))"

declare split.simps [simp del] findall_from.simps [simp del] chunk_spans.simps [simp del]

section \<open>The matcher consumes a prefix\<close>

lemma try_back_min:
  "try_back lo n p s k = Some x \<Longrightarrow> n \<le> length s \<Longrightarrow>
   \<exists>p' m. lo \<le> m \<and> m \<le> length s \<and> k p' (drop m s) = Some x"
proof (induction n)
  case 0
  then have "lo \<le> 0 \<and> 0 \<le> length s \<and> k p (drop 0 s) = Some x" by (simp split: if_splits)
  then show ?case by blast
next
  case (Suc n)
  show ?case
  proof (cases "k (last_char p (take (Suc n) s)) (drop (Suc n) s)")
    case None
    with Suc.prems have "try_back lo n p s k = Some x" by (simp split: if_splits)
    with Suc.IH Suc.prems(2) show ?thesis by simp
  next
    case (Some y)
    with Suc.prems have "lo \<le> Suc n \<and> Suc n \<le> length s \<and>
        k (last_char p (take (Suc n) s)) (drop (Suc n) s) = Some x"
      by (simp split: if_splits)
    then show ?thesis by blast
  qed
qed

lemma greedy_le: "greedy P hi s \<le> length s"
  using length_takeWhile_le [of P s]
  by (auto simp: greedy_def Let_def min_def split: option.splits)

lemma rmatch_min:
  "rmatch r p s k = Some x \<Longrightarrow>
   \<exists>p' m. min_len r \<le> m \<and> m \<le> length s \<and> k p' (drop m s) = Some x"
proof (induction r arbitrary: p s k)
  case (Lit l)
  then have t: "take (length l) s = l" and k: "k (last_char p l) (drop (length l) s) = Some x"
    by (simp_all split: if_splits)
  from t have "length (take (length l) s) = length l" by simp
  then have "length l \<le> length s" by simp
  with k have "min_len (Lit l) \<le> length l \<and> length l \<le> length s \<and>
      k (last_char p l) (drop (length l) s) = Some x" by simp
  then show ?case by blast
next
  case (Cls P lo hi)
  then show ?case using try_back_min [OF _ greedy_le] by simp
next
  case WordB
  then have "min_len WordB \<le> 0 \<and> 0 \<le> length s \<and> k p (drop 0 s) = Some x"
    by (simp split: if_splits)
  then show ?case by blast
next
  case (Cat a b)
  from Cat.prems have "rmatch a p s (\<lambda>p' s'. rmatch b p' s' k) = Some x" by simp
  from Cat.IH(1) [OF this] obtain p1 m1 where 1: "min_len a \<le> m1" "m1 \<le> length s"
    "rmatch b p1 (drop m1 s) k = Some x" by blast
  from Cat.IH(2) [OF 1(3)] obtain p2 m2 where 2: "min_len b \<le> m2" "m2 \<le> length (drop m1 s)"
    "k p2 (drop m2 (drop m1 s)) = Some x" by blast
  have "min_len (Cat a b) \<le> m2 + m1 \<and> m2 + m1 \<le> length s \<and> k p2 (drop (m2 + m1) s) = Some x"
    using 1 2 by simp
  then show ?case by blast
next
  case (Alt a b)
  show ?case
  proof (cases "rmatch a p s k")
    case None
    with Alt.prems have "rmatch b p s k = Some x" by simp
    from Alt.IH(2) [OF this] obtain p' m where "min_len b \<le> m" "m \<le> length s"
      "k p' (drop m s) = Some x" by blast
    then have "min_len (Alt a b) \<le> m \<and> m \<le> length s \<and> k p' (drop m s) = Some x" by simp
    then show ?thesis by blast
  next
    case (Some y)
    with Alt.prems have "rmatch a p s k = Some x" by simp
    from Alt.IH(1) [OF this] obtain p' m where "min_len a \<le> m" "m \<le> length s"
      "k p' (drop m s) = Some x" by blast
    then have "min_len (Alt a b) \<le> m \<and> m \<le> length s \<and> k p' (drop m s) = Some x" by simp
    then show ?thesis by blast
  qed
qed

lemma match_at_le: "match_at r p s = Some n \<Longrightarrow> n \<le> length s"
  by (auto simp: match_at_def split: option.splits)

lemma match_at_rest:
  assumes "match_at r p s = Some n"
  shows "rmatch r p s (\<lambda>_ s'. Some s') = Some (drop n s)"
proof -
  from assms obtain rest where r: "rmatch r p s (\<lambda>_ s'. Some s') = Some rest"
    and n: "n = length s - length rest"
    by (auto simp: match_at_def split: option.splits)
  from rmatch_min [OF r] obtain m where "m \<le> length s" "rest = drop m s" by auto
  then have "rest = drop n s" using n by simp
  with r show ?thesis by simp
qed

text \<open>
  No pattern of the program matches the empty string, so that \<open>findall\<close> never takes
  the branch for an empty match.
\<close>

lemma match_at_min: "match_at r p s = Some n \<Longrightarrow> min_len r \<le> n"
proof -
  assume a: "match_at r p s = Some n"
  then obtain rest where r: "rmatch r p s (\<lambda>_ s'. Some s') = Some rest"
    and n: "n = length s - length rest"
    by (auto simp: match_at_def split: option.splits)
  from rmatch_min [OF r] obtain m where "min_len r \<le> m" "m \<le> length s" "rest = drop m s"
    by auto
  with n show ?thesis by simp
qed

lemma patterns_min_len:
  "min_len SYSTEM_PAT = 3" "min_len FACTION_PAT = 6" "min_len DATE_PAT = 10"
  "min_len SENT_PAT = 2"
  by (simp_all add: SYSTEM_PAT_def FACTION_PAT_def DATE_PAT_def SENT_PAT_def one_def)

lemma findall_no_empty:
  "0 < min_len r \<Longrightarrow> [] \<notin> set (findall_from r p s)"
proof (induction r p s rule: findall_from.induct)
  case (1 r p s)
  show ?case
  proof (cases "match_at r p s")
    case None
    then show ?thesis
      using "1.IH"(1) "1.prems" by (subst findall_from.simps) (auto split: list.splits)
  next
    case (Some n)
    then have n: "0 < n" "n \<le> length s"
      using match_at_min [OF Some] match_at_le [OF Some] "1.prems" by simp_all
    then have "take n s \<noteq> []" by auto
    then show ?thesis
      using "1.IH"(3) [OF Some] n "1.prems" Some by (subst findall_from.simps) simp
  qed
qed

lemma search_from_le:
  "search_from r p s = Some (a, b) \<Longrightarrow> a \<le> b \<and> b \<le> length s"
proof (induction s arbitrary: p a b)
  case Nil
  then show ?case by (auto split: option.splits dest: match_at_le)
next
  case (Cons c cs)
  show ?case
  proof (cases "match_at r p (c # cs)")
    case None
    with Cons.prems obtain a' b' where "search_from r (Some c) cs = Some (a', b')"
      "a = Suc a'" "b = Suc b'" by auto
    with Cons.IH show ?thesis by auto
  next
    case (Some n)
    with Cons.prems show ?thesis by (auto dest: match_at_le)
  qed
qed

lemma search_le: "search r s = Some (a, b) \<Longrightarrow> a \<le> b \<and> b \<le> length s"
  unfolding search_def by (rule search_from_le)

lemma length_slice: "length (slice s i j) = min (j - i) (length s - i)"
  by (simp add: slice_def)

lemma window_end_lower: "min (i + CHUNK_SIZE) (length t) \<le> window_end t i"
  by (simp add: window_end_def Let_def split: option.splits)

lemma window_end_upper:
  "window_end t i \<le> length t \<and> window_end t i \<le> min (i + CHUNK_SIZE) (length t) + 120"
proof (cases "search SENT_PAT (slice t (min (i + CHUNK_SIZE) (length t)) (min (i + CHUNK_SIZE) (length t) + 120))")
  case None
  then show ?thesis by (simp add: window_end_def Let_def)
next
  case (Some ab)
  obtain a b where ab: "ab = (a, b)" by (cases ab)
  from search_le [OF Some [unfolded ab]]
  have "b \<le> min 120 (length t - min (i + CHUNK_SIZE) (length t))"
    by (simp add: length_slice)
  then have "min (i + CHUNK_SIZE) (length t) + b \<le> length t"
    and "b \<le> 120" by (simp_all add: min_def split: if_splits)
  with Some ab show ?thesis by (simp add: window_end_def Let_def)
qed

lemma window_end_gt: "i < length t \<Longrightarrow> i < window_end t i"
  using window_end_lower [of i t] by (simp add: CHUNK_SIZE_def)

lemma window_end_continue:
  "window_end t i < length t \<Longrightarrow> i + CHUNK_SIZE \<le> window_end t i"
  using window_end_lower [of i t] by simp

section \<open>The windows of the chunker\<close>

lemma spans_stop: "\<not> i < length t \<Longrightarrow> chunk_spans t i = []"
  by (simp add: chunk_spans.simps)

lemma spans_last: "i < length t \<Longrightarrow> length t \<le> window_end t i \<Longrightarrow>
    chunk_spans t i = [(i, window_end t i)]"
  by (subst chunk_spans.simps) (simp add: Let_def)

lemma spans_step: "i < length t \<Longrightarrow> window_end t i < length t \<Longrightarrow>
    chunk_spans t i = (i, window_end t i) # chunk_spans t (window_end t i - OVERLAP)"
  by (subst chunk_spans.simps) (simp add: Let_def)

lemma next_start:
  assumes "window_end t i < length t"
  shows "i + (CHUNK_SIZE - OVERLAP) \<le> window_end t i - OVERLAP"
    and "window_end t i - OVERLAP < length t"
    and "i < window_end t i - OVERLAP"
    and "window_end t i < window_end t (window_end t i - OVERLAP)"
proof -
  have c: "i + CHUNK_SIZE \<le> window_end t i" using assms by (rule window_end_continue)
  then show "i + (CHUNK_SIZE - OVERLAP) \<le> window_end t i - OVERLAP"
    by (simp add: CHUNK_SIZE_def OVERLAP_def)
  show "window_end t i - OVERLAP < length t" using assms by simp
  show "i < window_end t i - OVERLAP" using c by (simp add: CHUNK_SIZE_def OVERLAP_def)
  have "min (window_end t i - OVERLAP + CHUNK_SIZE) (length t)
      \<le> window_end t (window_end t i - OVERLAP)" by (rule window_end_lower)
  moreover have "window_end t i < window_end t i - OVERLAP + CHUNK_SIZE"
    using c by (simp add: CHUNK_SIZE_def OVERLAP_def)
  ultimately show "window_end t i < window_end t (window_end t i - OVERLAP)"
    using assms by simp
qed

lemma window_end_width: "window_end t i \<le> i + CHUNK_SIZE + 120"
  using window_end_upper [of t i] by (simp add: min_def split: if_splits)

lemma spans_bounds:
  "(a, e) \<in> set (chunk_spans t i) \<Longrightarrow>
     i \<le> a \<and> a < e \<and> e \<le> length t \<and> e \<le> a + CHUNK_SIZE + 120 \<and> e = window_end t a"
proof (induction t i rule: chunk_spans.induct)
  case (1 t i)
  show ?case
  proof (cases "i < length t")
    case False
    with "1.prems" show ?thesis by (simp add: spans_stop)
  next
    case True
    note i = this
    show ?thesis
    proof (cases "length t \<le> window_end t i")
      case True
      with i "1.prems" have "a = i" "e = window_end t i" by (simp_all add: spans_last)
      then show ?thesis
        using window_end_upper [of t i] window_end_width [of t i] window_end_gt [OF i] by simp
    next
      case False
      then have lt: "window_end t i < length t" by simp
      from "1.prems" have "(a, e) = (i, window_end t i)
          \<or> (a, e) \<in> set (chunk_spans t (window_end t i - OVERLAP))"
        by (simp add: spans_step [OF i lt])
      then show ?thesis
      proof
        assume "(a, e) = (i, window_end t i)"
        then show ?thesis
          using window_end_upper [of t i] window_end_width [of t i] window_end_gt [OF i] by simp
      next
        assume "(a, e) \<in> set (chunk_spans t (window_end t i - OVERLAP))"
        from "1.IH" [OF i refl False this] next_start(3) [OF lt]
        show ?thesis by simp
      qed
    qed
  qed
qed

lemma spans_hd: "i < length t \<Longrightarrow> chunk_spans t i \<noteq> [] \<and> fst (hd (chunk_spans t i)) = i"
  by (subst (1 2) chunk_spans.simps) (simp add: Let_def)

lemma spans_end: "i < length t \<Longrightarrow> snd (last (chunk_spans t i)) = length t"
proof (induction t i rule: chunk_spans.induct)
  case (1 t i)
  show ?case
  proof (cases "length t \<le> window_end t i")
    case True
    then show ?thesis using "1.prems" window_end_upper [of t i]
      by (simp add: spans_last)
  next
    case False
    then have lt: "window_end t i < length t" by simp
    have "snd (last (chunk_spans t (window_end t i - OVERLAP))) = length t"
      using "1.IH" [OF "1.prems" refl False] next_start(2) [OF lt] by simp
    then show ?thesis
      using spans_hd [OF next_start(2) [OF lt]] by (simp add: spans_step [OF "1.prems" lt])
  qed
qed

lemma spans_consecutive:
  "Suc k < length (chunk_spans t i) \<Longrightarrow>
     fst (chunk_spans t i ! Suc k) = snd (chunk_spans t i ! k) - OVERLAP \<and>
     fst (chunk_spans t i ! k) + CHUNK_SIZE \<le> snd (chunk_spans t i ! k) \<and>
     snd (chunk_spans t i ! k) < snd (chunk_spans t i ! Suc k) \<and>
     snd (chunk_spans t i ! k) < length t"
proof (induction t i arbitrary: k rule: chunk_spans.induct)
  case (1 t i)
  have i: "i < length t" using "1.prems" by (cases "i < length t") (simp_all add: spans_stop)
  have lt: "window_end t i < length t"
    using "1.prems" i by (cases "length t \<le> window_end t i") (simp_all add: spans_last)
  let ?j = "window_end t i - OVERLAP"
  have eq: "chunk_spans t i = (i, window_end t i) # chunk_spans t ?j"
    by (rule spans_step [OF i lt])
  have j: "?j < length t" by (rule next_start(2) [OF lt])
  show ?case
  proof (cases k)
    case 0
    have "chunk_spans t ?j ! 0 = hd (chunk_spans t ?j)"
      using spans_hd [OF j] by (simp add: hd_conv_nth)
    moreover have "hd (chunk_spans t ?j) \<in> set (chunk_spans t ?j)"
      using spans_hd [OF j] by simp
    then have "snd (hd (chunk_spans t ?j)) = window_end t (fst (hd (chunk_spans t ?j)))"
      using spans_bounds [of "fst (hd (chunk_spans t ?j))" "snd (hd (chunk_spans t ?j))" t ?j]
      by simp
    ultimately show ?thesis
      using 0 spans_hd [OF j] window_end_continue [OF lt] next_start(4) [OF lt] lt
      by (simp add: eq)
  next
    case (Suc k')
    with "1.prems" have "Suc k' < length (chunk_spans t ?j)" by (simp add: eq)
    from "1.IH" [OF i refl _ this] lt show ?thesis by (simp add: eq Suc)
  qed
qed

lemma spans_cover:
  "i \<le> length t \<Longrightarrow> (\<Union>(a, e) \<in> set (chunk_spans t i). {a..<e}) = {i..<length t}"
proof (induction t i rule: chunk_spans.induct)
  case (1 t i)
  show ?case
  proof (cases "i < length t")
    case False
    with "1.prems" show ?thesis by (simp add: spans_stop)
  next
    case True
    note i = this
    show ?thesis
    proof (cases "length t \<le> window_end t i")
      case True
      then have "window_end t i = length t" using window_end_upper [of t i] by simp
      then show ?thesis using i by (simp add: spans_last)
    next
      case False
      then have lt: "window_end t i < length t" by simp
      have "(\<Union>(a, e) \<in> set (chunk_spans t (window_end t i - OVERLAP)). {a..<e})
          = {window_end t i - OVERLAP..<length t}"
        using "1.IH" [OF i refl False] next_start(2) [OF lt] by simp
      then show ?thesis
        using next_start(3) [OF lt] lt by (auto simp: spans_step [OF i lt])
    qed
  qed
qed

lemma spans_rebuild:
  "i \<le> length t \<Longrightarrow> rebuild (map (\<lambda>(a, e). slice t a e) (chunk_spans t i)) = drop i t"
proof (induction t i rule: chunk_spans.induct)
  case (1 t i)
  show ?case
  proof (cases "i < length t")
    case False
    with "1.prems" show ?thesis by (simp add: spans_stop)
  next
    case True
    note i = this
    show ?thesis
    proof (cases "length t \<le> window_end t i")
      case True
      then show ?thesis using i by (simp add: spans_last slice_def)
    next
      case False
      then have lt: "window_end t i < length t" by simp
      let ?e = "window_end t i"
      let ?j = "?e - OVERLAP"
      have j: "?j < length t" by (rule next_start(2) [OF lt])
      obtain e' rest where r: "chunk_spans t ?j = (?j, e') # rest"
        using spans_hd [OF j] by (cases "chunk_spans t ?j") auto
      have "(?j, e') \<in> set (chunk_spans t ?j)" by (simp add: r)
      from spans_bounds [OF this] have e': "e' = window_end t ?j" "e' \<le> length t" by simp_all
      have ee: "?e < e'" using next_start(4) [OF lt] e' by simp
      have ov: "OVERLAP \<le> ?e" using window_end_continue [OF lt]
        by (simp add: CHUNK_SIZE_def OVERLAP_def)
      have "rebuild (map (\<lambda>(a, e). slice t a e) (chunk_spans t ?j)) = drop ?j t"
        using "1.IH" [OF i refl False] j by simp
      then have "slice t ?j e' @ concat (map (drop OVERLAP) (map (\<lambda>(a, e). slice t a e) rest))
          = drop ?j t" by (simp add: r)
      then have "drop OVERLAP (slice t ?j e' @
          concat (map (drop OVERLAP) (map (\<lambda>(a, e). slice t a e) rest))) = drop OVERLAP (drop ?j t)"
        by simp
      moreover have "OVERLAP \<le> length (slice t ?j e')"
        using ee e' ov j by (simp add: length_slice)
      moreover have "drop OVERLAP (drop ?j t) = drop ?e t" using ov by simp
      ultimately have "drop OVERLAP (slice t ?j e') @
          concat (map (drop OVERLAP) (map (\<lambda>(a, e). slice t a e) rest)) = drop ?e t"
        by simp
      moreover have "slice t i ?e @ drop ?e t = drop i t"
      proof -
        have "i \<le> ?e" using window_end_gt [OF i] by simp
        then have "drop (?e - i) (drop i t) = drop ?e t" by simp
        moreover have "take (?e - i) (drop i t) @ drop (?e - i) (drop i t) = drop i t"
          by (rule append_take_drop_id)
        ultimately show ?thesis by (simp only: slice_def)
      qed
      ultimately show ?thesis by (simp add: spans_step [OF i lt] r)
    qed
  qed
qed

section \<open>The loops of \<open>main\<close>\<close>

lemma tag_fields:
  "c_id (tag it chunks c) = length chunks"
  "c_page (tag it chunks c) = w_page c"
  "c_text (tag it chunks c) = w_text c"
  "c_systems (tag it chunks c) = it (findall SYSTEM_PAT (w_text c))"
  "c_factions (tag it chunks c) = it (findall FACTION_PAT (w_text c))"
  "c_dates (tag it chunks c) = it (findall DATE_PAT (w_text c))"
  by (simp_all add: tag_def Let_def)

lemma inner_length:
  "length (foldl (\<lambda>chunks c. chunks @ [tag it chunks c]) chunks ws) = length chunks + length ws"
  by (induction ws arbitrary: chunks) simp_all

lemma inner_map:
  assumes "\<And>chunks c. f (tag it chunks c) = g c"
  shows "map f (foldl (\<lambda>chunks c. chunks @ [tag it chunks c]) chunks ws) = map f chunks @ map g ws"
  by (induction ws arbitrary: chunks) (simp_all add: assms)

lemma inner_ids:
  "map c_id chunks = [0..<length chunks] \<Longrightarrow>
   map c_id (foldl (\<lambda>chunks c. chunks @ [tag it chunks c]) chunks ws)
     = [0..<length chunks + length ws]"
proof (induction ws arbitrary: chunks)
  case Nil
  then show ?case by simp
next
  case (Cons w ws)
  have "map c_id (chunks @ [tag it chunks w]) = [0..<length (chunks @ [tag it chunks w])]"
    using Cons.prems by (simp add: tag_fields)
  from Cons.IH [OF this] show ?case by simp
qed

lemma outer_length:
  "n \<le> length pages \<Longrightarrow>
   length (foldl (add_page it pages) [] [0..<n])
     = length (concat (map (\<lambda>p. chunk (Some (or_empty (pages ! p))) (p + 1)) [0..<n]))"
  by (induction n) (simp_all add: add_page_def Let_def inner_length)

lemma outer_map:
  assumes "\<And>chunks c. f (tag it chunks c) = g c"
  shows "map f (foldl (add_page it pages) [] [0..<n])
     = map g (concat (map (\<lambda>p. chunk (Some (or_empty (pages ! p))) (p + 1)) [0..<n]))"
  by (induction n) (simp_all add: add_page_def Let_def inner_map [where f = f and g = g, OF assms])

lemma outer_ids:
  "map c_id (foldl (add_page it pages) [] [0..<n])
     = [0..<length (foldl (add_page it pages) [] [0..<n])]"
proof (induction n)
  case 0
  then show ?case by simp
next
  case (Suc n)
  show ?case
    using inner_ids [OF Suc, of it "chunk (Some (or_empty (pages ! n))) (n + 1)"]
    by (simp add: add_page_def Let_def inner_length)
qed

lemma collect_length: "length (collect it pages) = length (all_windows pages)"
  by (simp add: collect_def all_windows_def outer_length)

lemma collect_map:
  "(\<And>chunks c. f (tag it chunks c) = g c) \<Longrightarrow>
   map f (collect it pages) = map g (all_windows pages)"
  unfolding collect_def all_windows_def by (rule outer_map)

lemma collect_ids: "map c_id (collect it pages) = [0..<length (collect it pages)]"
  unfolding collect_def by (rule outer_ids)

lemma collect_text: "map c_text (collect it pages) = map w_text (all_windows pages)"
  by (rule collect_map) (rule tag_fields)

lemma collect_page: "map c_page (collect it pages) = map w_page (all_windows pages)"
  by (rule collect_map) (rule tag_fields)

subsection \<open>The document frequencies\<close>

lemma lookup0_incr: "lookup0 (df_incr df w) v = lookup0 df v + (if v = w then 1 else 0)"
  by (simp add: lookup0_def df_incr_def update_conv')

lemma lookup0_incrs: "lookup0 (foldl df_incr df ws) v = lookup0 df v + count_list ws v"
  by (induction ws arbitrary: df) (simp_all add: lookup0_incr)

lemma df_pos_incr: "df_pos df \<Longrightarrow> df_pos (df_incr df w)"
  by (auto simp: df_pos_def df_incr_def update_conv')

lemma df_pos_incrs: "df_pos df \<Longrightarrow> df_pos (foldl df_incr df ws)"
  by (induction ws arbitrary: df) (simp_all add: df_pos_incr)

lemma distinct_incr: "distinct (map fst df) \<Longrightarrow> distinct (map fst (df_incr df w))"
  by (simp add: df_incr_def distinct_update)

lemma distinct_incrs: "distinct (map fst df) \<Longrightarrow> distinct (map fst (foldl df_incr df ws))"
  by (induction ws arbitrary: df) (simp_all add: distinct_incr)

lemma count_distinct: "distinct ws \<Longrightarrow> count_list ws v = (if v \<in> set ws then 1 else 0)"
  by (induction ws) auto

lemma build_df_gen:
  assumes "iter_ok it"
  shows "lookup0 (foldl (\<lambda>df c. foldl df_incr df (it (toks (Some (c_text c))))) df chunks) w
     = lookup0 df w + doc_freq chunks w"
proof (induction chunks arbitrary: df)
  case Nil
  then show ?case by (simp add: doc_freq_def)
next
  case (Cons c cs)
  have "count_list (it (toks (Some (c_text c)))) w
      = (if w \<in> set (toks (Some (c_text c))) then 1 else 0)"
    using assms by (simp add: iter_ok_def count_distinct)
  then show ?case by (simp add: Cons.IH lookup0_incrs doc_freq_def)
qed

lemma build_df_pos_gen:
  "df_pos df \<Longrightarrow> df_pos (foldl (\<lambda>df c. foldl df_incr df (it (toks (Some (c_text c))))) df chunks)"
  by (induction chunks arbitrary: df) (simp_all add: df_pos_incrs)

lemma build_df_distinct_gen:
  "distinct (map fst df) \<Longrightarrow>
   distinct (map fst (foldl (\<lambda>df c. foldl df_incr df (it (toks (Some (c_text c))))) df chunks))"
  by (induction chunks arbitrary: df) (simp_all add: distinct_incrs)

lemma build_df_lookup0: "iter_ok it \<Longrightarrow> lookup0 (build_df it chunks) w = doc_freq chunks w"
  using build_df_gen [of it "[]" chunks w] by (simp add: build_df_def lookup0_def)

lemma build_df_pos: "df_pos (build_df it chunks)"
  unfolding build_df_def by (rule build_df_pos_gen) (simp add: df_pos_def)

lemma build_df_distinct: "distinct (map fst (build_df it chunks))"
  unfolding build_df_def by (rule build_df_distinct_gen) simp

lemma build_df_map_of:
  assumes "iter_ok it"
  shows "map_of (build_df it chunks) w
     = (if doc_freq chunks w = 0 then None else Some (doc_freq chunks w))"
proof (cases "map_of (build_df it chunks) w")
  case None
  then show ?thesis using build_df_lookup0 [OF assms, of chunks w] by (simp add: lookup0_def)
next
  case (Some d)
  then have "0 < d" using build_df_pos [of it chunks] by (simp add: df_pos_def)
  then show ?thesis using Some build_df_lookup0 [OF assms, of chunks w]
    by (simp add: lookup0_def)
qed

lemma doc_freq_le: "doc_freq chunks w \<le> length chunks"
  by (simp add: doc_freq_def)

lemma doc_freq_texts:
  assumes "map c_text cs1 = map c_text cs2"
  shows "doc_freq cs1 w = doc_freq cs2 w"
proof -
  have h: "\<And>cs. doc_freq cs w
      = length (filter (\<lambda>t. w \<in> set (toks (Some t))) (map c_text cs))"
    by (simp add: doc_freq_def filter_map comp_def)
  show ?thesis by (simp only: h assms)
qed

lemma build_df_texts:
  "build_df it chunks
     = foldl (\<lambda>df t. foldl df_incr df (it (toks (Some t)))) [] (map c_text chunks)"
  by (simp add: build_df_def foldl_map)

lemma idf_map_of:
  "map_of (out_idf (main it pages)) w
     = map_option (idf_weight (length (collect it pages)))
         (map_of (build_df it (collect it pages)) w)"
  by (simp add: main_def Let_def map_of_map)

section \<open>Budget, tokens, weights and plain strings\<close>

lemma chunk_text_spans:
  "map w_text (chunk text page) = map (\<lambda>(i, e). slice (clean text) i e) (chunk_spans (clean text) 0)"
  by (simp add: chunk_def Let_def comp_def case_prod_unfold)

lemma chunk_fuel_enough:
  "(length t - i) div (CHUNK_SIZE - OVERLAP) < n \<Longrightarrow> chunk_fuel n t i = Some (chunk_spans t i)"
proof (induction t i arbitrary: n rule: chunk_spans.induct)
  case (1 t i)
  obtain m where n: "n = Suc m" using "1.prems" by (cases n) auto
  show ?case
  proof (cases "i < length t")
    case False
    then show ?thesis by (simp add: n spans_stop)
  next
    case True
    note i = this
    show ?thesis
    proof (cases "length t \<le> window_end t i")
      case True
      then show ?thesis using i by (simp add: n spans_last)
    next
      case False
      then have lt: "window_end t i < length t" by simp
      let ?j = "window_end t i - OVERLAP"
      have "length t - ?j + (CHUNK_SIZE - OVERLAP) \<le> length t - i"
        using next_start(1,2) [OF lt] by simp
      then have "(length t - ?j + (CHUNK_SIZE - OVERLAP)) div (CHUNK_SIZE - OVERLAP)
          \<le> (length t - i) div (CHUNK_SIZE - OVERLAP)" by (rule div_le_mono)
      then have "(length t - ?j) div (CHUNK_SIZE - OVERLAP) < m"
        using "1.prems" n by (simp add: CHUNK_SIZE_def OVERLAP_def)
      from "1.IH" [OF i refl False this] show ?thesis
        using i lt by (simp add: n spans_step Let_def)
    qed
  qed
qed

lemma split_props:
  "w \<in> set (split s) \<Longrightarrow> w \<noteq> [] \<and> (\<forall>c \<in> set w. \<not> isspace c \<and> c \<in> set s)"
proof (induction s rule: split.induct)
  case (1 s)
  let ?s1 = "dropWhile isspace s"
  have ne: "?s1 \<noteq> []" using "1.prems" by (subst (asm) split.simps) (auto simp: Let_def split: if_splits)
  from "1.prems" have "w = takeWhile (\<lambda>c. \<not> isspace c) ?s1
      \<or> w \<in> set (split (dropWhile (\<lambda>c. \<not> isspace c) ?s1))"
    by (subst (asm) split.simps) (auto simp: Let_def split: if_splits)
  then show ?case
  proof
    assume w: "w = takeWhile (\<lambda>c. \<not> isspace c) ?s1"
    have "\<not> isspace (hd ?s1)" using ne hd_dropWhile by metis
    then have "w \<noteq> []" using ne w by (cases ?s1) auto
    moreover have "\<forall>c \<in> set w. \<not> isspace c \<and> c \<in> set s"
      using w by (auto dest: set_takeWhileD set_dropWhileD)
    ultimately show ?thesis by simp
  next
    assume "w \<in> set (split (dropWhile (\<lambda>c. \<not> isspace c) ?s1))"
    from "1.IH" [OF refl ne this] show ?thesis
      by (auto dest: set_dropWhileD)
  qed
qed

lemma toks_props:
  assumes "w \<in> set (toks s)"
  shows "2 < length w \<and> (\<forall>c \<in> set w. is_lower c \<or> is_digit c \<or> c = CHR ''-'')"
proof -
  let ?s = "map (\<lambda>c. if keep_char c then c else CHR '' '') (lower (or_empty s))"
  from assms have w: "w \<in> set (split ?s)" and l: "2 < length w"
    by (simp_all add: toks_def Let_def)
  have "is_lower c \<or> is_digit c \<or> c = CHR ''-''" if "c \<in> set w" for c
  proof -
    from split_props [OF w] that have ns: "\<not> isspace c" and "c \<in> set ?s" by auto
    then have "c \<in> (\<lambda>c. if keep_char c then c else CHR '' '') ` set (lower (or_empty s))"
      by simp
    then obtain c' where "c = (if keep_char c' then c' else CHR '' '')" by blast
    moreover have "isspace CHR '' ''" by (simp add: isspace_def)
    ultimately have "keep_char c" using ns by (auto split: if_splits)
    with ns show ?thesis by (simp add: keep_char_def)
  qed
  with l show ?thesis by blast
qed

lemma idf_weight_pos: "d \<le> N \<Longrightarrow> 1 \<le> idf_weight N d"
proof -
  assume "d \<le> N"
  then have "1 \<le> real (N + 1) / real (d + 1)" by simp
  then have "0 \<le> ln (real (N + 1) / real (d + 1))" by simp
  then show ?thesis by (simp add: idf_weight_def)
qed

lemma idf_weight_mono: "d1 \<le> d2 \<Longrightarrow> idf_weight N d2 \<le> idf_weight N d1"
proof -
  assume "d1 \<le> d2"
  then have "real (N + 1) / real (d2 + 1) \<le> real (N + 1) / real (d1 + 1)"
    by (intro divide_left_mono) simp_all
  moreover have "0 < real (N + 1) / real (d2 + 1)" by simp
  ultimately have "ln (real (N + 1) / real (d2 + 1)) \<le> ln (real (N + 1) / real (d1 + 1))"
    by (simp only: ln_mono)
  then show ?thesis by (simp add: idf_weight_def)
qed

lemma no_sentence_end:
  "\<forall>c \<in> set s. c \<noteq> CHR ''.'' \<and> c \<noteq> CHR ''!'' \<and> c \<noteq> CHR ''?'' \<Longrightarrow>
   search_from SENT_PAT p s = None"
proof (induction s arbitrary: p)
  case Nil
  show ?case by (simp add: SENT_PAT_def one_def match_at_def greedy_def)
next
  case (Cons c cs)
  then show ?case by (simp add: SENT_PAT_def one_def match_at_def greedy_def)
qed

lemma sub_ws_id: "\<forall>c \<in> set s. \<not> isspace c \<Longrightarrow> sub_ws s = s"
  by (induction s) simp_all

lemma strip_id: "\<forall>c \<in> set s. \<not> isspace c \<Longrightarrow> strip s = s"
proof -
  assume a: "\<forall>c \<in> set s. \<not> isspace c"
  have d: "dropWhile isspace xs = xs" if "\<forall>c \<in> set xs. \<not> isspace c" for xs
    using that by (cases xs) simp_all
  have "dropWhile isspace s = s" using a by (rule d)
  moreover have "dropWhile isspace (rev s) = rev s" using a by (intro d) simp
  ultimately show ?thesis by (simp add: strip_def)
qed

lemma clean_id: "\<forall>c \<in> set s. \<not> isspace c \<Longrightarrow> clean (Some s) = s"
  by (simp add: clean_def or_empty_def sub_ws_id strip_id)

lemma set_slice: "set (slice s i j) \<subseteq> set s"
  by (auto simp: slice_def dest: in_set_takeD in_set_dropD)

lemma window_end_plain:
  assumes "\<forall>c \<in> set t. c \<noteq> CHR ''.'' \<and> c \<noteq> CHR ''!'' \<and> c \<noteq> CHR ''?''"
  shows "window_end t i = min (i + CHUNK_SIZE) (length t)"
proof -
  let ?ext = "slice t (min (i + CHUNK_SIZE) (length t)) (min (i + CHUNK_SIZE) (length t) + 120)"
  have "\<forall>c \<in> set ?ext. c \<noteq> CHR ''.'' \<and> c \<noteq> CHR ''!'' \<and> c \<noteq> CHR ''?''"
  proof
    fix c
    assume "c \<in> set ?ext"
    with set_slice have "c \<in> set t" by (rule subsetD)
    with assms show "c \<noteq> CHR ''.'' \<and> c \<noteq> CHR ''!'' \<and> c \<noteq> CHR ''?''" by (rule bspec)
  qed
  then have "search SENT_PAT ?ext = None" unfolding search_def by (rule no_sentence_end)
  then show ?thesis by (simp add: window_end_def Let_def)
qed

section \<open>The tokenizer against the words of the specification\<close>

text \<open>
  Characters are compared through their codes; the written-out alphabets are the ranges
  of the character classes.
\<close>

lemma char_eq_code: "(c = d) = ((of_char c :: nat) = of_char d)"
  by simp

lemma in_lower_letters: "c \<in> set lower_letters \<longleftrightarrow> is_lower c"
  unfolding lower_letters_def is_lower_def by (simp add: char_eq_code) arith

lemma in_upper_letters: "c \<in> set upper_letters \<longleftrightarrow> is_upper c"
  unfolding upper_letters_def is_upper_def by (simp add: char_eq_code) arith

lemma in_digit_chars: "c \<in> set digit_chars \<longleftrightarrow> is_digit c"
  unfolding digit_chars_def is_digit_def by (simp add: char_eq_code) arith

lemma lower_upper_letters: "map lower_char upper_letters = lower_letters"
  by (simp add: upper_letters_def lower_letters_def lower_char_def is_upper_def Let_def
      char_eq_code)

lemma spec_lower_upper_letters: "map spec_lower upper_letters = lower_letters"
  by (simp add: upper_letters_def lower_letters_def spec_lower_def)


lemma spec_lower_upper:
  assumes "is_upper c"
  shows "spec_lower c = lower_char c"
proof -
  from assms have "c \<in> set upper_letters" by (simp add: in_upper_letters)
  then obtain i where i: "i < length upper_letters" "c = upper_letters ! i"
    by (auto simp: in_set_conv_nth)
  have d: "distinct upper_letters" by (simp add: upper_letters_def)
  have l: "length upper_letters = length lower_letters"
    by (simp add: upper_letters_def lower_letters_def)
  have "map_of (zip upper_letters lower_letters) (upper_letters ! i) = Some (lower_letters ! i)"
    using d l i(1) by (simp add: map_of_zip_nth)
  moreover have "lower_letters ! i = lower_char (upper_letters ! i)"
    using i(1) nth_map [of i upper_letters lower_char] by (simp add: lower_upper_letters)
  ultimately show ?thesis by (simp add: spec_lower_def i(2))
qed

lemma spec_lower_other:
  assumes "\<not> is_upper c"
  shows "spec_lower c = c"
proof -
  have "length upper_letters = length lower_letters"
    by (simp add: upper_letters_def lower_letters_def)
  moreover from assms have "c \<notin> set upper_letters" by (simp add: in_upper_letters)
  ultimately have "map_of (zip upper_letters lower_letters) c = None"
    by (simp add: map_of_zip_is_None)
  then show ?thesis by (simp add: spec_lower_def)
qed

lemma spec_replace_keep: "spec_replace c = (if keep_char c then c else CHR '' '')"
  by (simp add: spec_replace_def keep_char_def in_lower_letters in_digit_chars)

lemma char_step:
  "(if keep_char (lower_char c) then lower_char c else CHR '' '') = spec_replace (spec_lower c)"
proof (cases "is_upper c")
  case True
  then show ?thesis by (simp add: spec_lower_upper spec_replace_keep)
next
  case False
  note nu = this
  show ?thesis
  proof (cases "192 \<le> (of_char c :: nat) \<and> (of_char c :: nat) \<le> 222 \<and> (of_char c :: nat) \<noteq> 215")
    case True
    then have lc: "lower_char c = char_of ((of_char c :: nat) + 32)"
      by (simp add: lower_char_def Let_def)
    have "(of_char (char_of ((of_char c :: nat) + 32)) :: nat) = of_char c + 32"
      using True by simp
    then have "\<not> keep_char (lower_char c)"
      using True unfolding lc keep_char_def is_lower_def is_digit_def isspace_def
      by (simp add: char_eq_code)
    moreover have "\<not> keep_char c"
      using True unfolding keep_char_def is_lower_def is_digit_def isspace_def
      by (simp add: char_eq_code)
    ultimately show ?thesis by (simp add: spec_lower_other [OF nu] spec_replace_keep)
  next
    case False
    with nu have "lower_char c = c" by (auto simp: lower_char_def Let_def)
    then show ?thesis by (simp add: spec_lower_other [OF nu] spec_replace_keep)
  qed
qed

lemma toks_refines_spec: "toks s = toks_spec s"
proof -
  have "map (\<lambda>c. if keep_char c then c else CHR '' '') (lower (or_empty s))
      = map spec_replace (map spec_lower (or_empty s))"
    by (simp add: lower_def comp_def char_step)
  then show ?thesis by (simp add: toks_def toks_spec_def Let_def not_le)
qed

lemma split_only_space: "\<forall>c \<in> set sp. isspace c \<Longrightarrow> split sp = []"
proof -
  assume "\<forall>c \<in> set sp. isspace c"
  then have "dropWhile isspace sp = []" by simp
  then show ?thesis by (subst split.simps) (simp add: Let_def)
qed

lemma split_word:
  assumes "\<forall>c \<in> set sp. isspace c" and "w \<noteq> []" and "\<forall>c \<in> set w. \<not> isspace c"
    and "rest = [] \<or> isspace (hd rest)"
  shows "split (sp @ w @ rest) = w # split rest"
proof -
  have "\<not> isspace (hd w)" using assms(2,3) by (cases w) auto
  then have "dropWhile isspace (w @ rest) = w @ rest" using assms(2) by (cases w) auto
  then have d: "dropWhile isspace (sp @ w @ rest) = w @ rest"
    using assms(1) by (simp add: dropWhile_append2)
  have r: "takeWhile (\<lambda>c. \<not> isspace c) rest = []" "dropWhile (\<lambda>c. \<not> isspace c) rest = rest"
    using assms(4) by (cases rest; simp)+
  have t: "takeWhile (\<lambda>c. \<not> isspace c) (w @ rest) = w"
    using assms(3) r(1) by (simp add: takeWhile_append2)
  have e: "dropWhile (\<lambda>c. \<not> isspace c) (w @ rest) = rest"
    using assms(3) r(2) by (simp add: dropWhile_append2)
  show ?thesis using assms(2) by (subst split.simps) (simp add: Let_def d t e)
qed

section \<open>Pages, iteration orders and the keys of the index\<close>

lemma main_fields:
  "out_chunks (main it pages) = collect it pages"
  "out_N (main it pages) = length (collect it pages)"
  "out_idf (main it pages)
     = map (\<lambda>(w, d). (w, idf_weight (length (collect it pages)) d))
         (build_df it (collect it pages))"
  by (simp_all add: main_def Let_def)

lemma chunk_page: "w \<in> set (chunk text page) \<Longrightarrow> w_page w = page"
  by (auto simp: chunk_def Let_def)

lemma windows_upto_page:
  "w \<in> set (concat (map (\<lambda>p. chunk (Some (or_empty (pages ! p))) (p + 1)) [0..<n])) \<Longrightarrow>
   w_page w \<le> n"
  by (induction n) (auto dest: chunk_page)

lemma chunk_pages_sorted: "sorted (map w_page (chunk text page))"
proof -
  have "map w_page (chunk text page) = replicate (length (chunk_spans (clean text) 0)) page"
    by (simp add: chunk_def Let_def comp_def case_prod_unfold map_replicate_const)
  then show ?thesis by simp
qed

lemma windows_sorted:
  "sorted (map w_page (concat (map (\<lambda>p. chunk (Some (or_empty (pages ! p))) (p + 1)) [0..<n])))"
proof (induction n)
  case 0
  show ?case by simp
next
  case (Suc n)
  then show ?case
    by (auto simp: sorted_append chunk_pages_sorted dest!: windows_upto_page chunk_page)
qed

lemma page_texts:
  "map w_text (all_windows pages)
     = concat (map (\<lambda>x. map w_text (chunk (Some (or_empty x)) 0)) pages)"
proof -
  have "map w_text (all_windows pages)
      = concat (map (\<lambda>p. map w_text (chunk (Some (or_empty (pages ! p))) 0)) [0..<length pages])"
    by (simp add: all_windows_def map_concat comp_def chunk_text_spans)
  also have "\<dots> = concat (map (\<lambda>x. map w_text (chunk (Some (or_empty x)) 0))
      (map (nth pages) [0..<length pages]))"
    by (simp add: comp_def)
  finally show ?thesis by (simp only: map_nth)
qed

lemma clean_empty: "clean (Some []) = []"
  by (simp add: clean_def or_empty_def strip_def)

lemma chunk_nil: "chunk (Some []) p = []"
  by (simp add: chunk_def Let_def clean_empty spans_stop)

lemma chunk_empty: "or_empty e = [] \<Longrightarrow> chunk (Some (or_empty e)) p = []"
  by (simp add: chunk_nil)

lemma empty_page_texts:
  "or_empty e = [] \<Longrightarrow>
   map w_text (all_windows (ps @ e # qs)) = map w_text (all_windows (ps @ qs))"
  by (simp add: page_texts chunk_nil)

lemma build_df_cong:
  "map c_text cs1 = map c_text cs2 \<Longrightarrow> build_df it cs1 = build_df it cs2"
  by (simp add: build_df_texts)

lemma iter_ok_remdups: "iter_ok remdups"
  by (simp add: iter_ok_def)

lemma iter_ok_rev_remdups: "iter_ok (rev \<circ> remdups)"
  by (simp add: iter_ok_def)

lemma iter_single: "iter_ok it \<Longrightarrow> it [x] = [x]"
proof -
  assume "iter_ok it"
  then have d: "distinct (it [x])" and s: "set (it [x]) = {x}" by (simp_all add: iter_ok_def)
  show ?thesis
  proof (cases "it [x]")
    case Nil
    with s show ?thesis by simp
  next
    case (Cons y ys)
    with d s have "ys = []" by (cases ys) auto
    with Cons s show ?thesis by simp
  qed
qed

lemma idf_keys:
  "iter_ok it \<Longrightarrow>
   (w \<in> fst ` set (out_idf (main it pages))) = (0 < doc_freq (out_chunks (main it pages)) w)"
proof -
  assume ok: "iter_ok it"
  have "fst ` set (out_idf (main it pages)) = fst ` set (build_df it (collect it pages))"
    by (force simp: main_fields)
  also have "\<dots> = dom (map_of (build_df it (collect it pages)))"
    by (simp add: dom_map_of_conv_image_fst)
  finally show ?thesis
    by (auto simp: main_fields build_df_map_of [OF ok] dom_def)
qed

lemma collect_sets:
  assumes "iter_ok it1" "iter_ok it2"
  shows "map (set \<circ> c_systems) (collect it1 pages) = map (set \<circ> c_systems) (collect it2 pages)"
    and "map (set \<circ> c_factions) (collect it1 pages) = map (set \<circ> c_factions) (collect it2 pages)"
    and "map (set \<circ> c_dates) (collect it1 pages) = map (set \<circ> c_dates) (collect it2 pages)"
proof -
  have s: "set (it xs) = set xs" if "iter_ok it" for it xs
    using that by (simp add: iter_ok_def)
  have "map (set \<circ> c_systems) (collect it pages)
      = map (\<lambda>w. set (findall SYSTEM_PAT (w_text w))) (all_windows pages)" if "iter_ok it" for it
    by (rule collect_map) (simp add: tag_fields s [OF that])
  from this [OF assms(1)] this [OF assms(2)]
  show "map (set \<circ> c_systems) (collect it1 pages) = map (set \<circ> c_systems) (collect it2 pages)"
    by simp
  have "map (set \<circ> c_factions) (collect it pages)
      = map (\<lambda>w. set (findall FACTION_PAT (w_text w))) (all_windows pages)" if "iter_ok it" for it
    by (rule collect_map) (simp add: tag_fields s [OF that])
  from this [OF assms(1)] this [OF assms(2)]
  show "map (set \<circ> c_factions) (collect it1 pages) = map (set \<circ> c_factions) (collect it2 pages)"
    by simp
  have "map (set \<circ> c_dates) (collect it pages)
      = map (\<lambda>w. set (findall DATE_PAT (w_text w))) (all_windows pages)" if "iter_ok it" for it
    by (rule collect_map) (simp add: tag_fields s [OF that])
  from this [OF assms(1)] this [OF assms(2)]
  show "map (set \<circ> c_dates) (collect it1 pages) = map (set \<circ> c_dates) (collect it2 pages)"
    by simp
qed

section \<open>The chunker\<close>

text \<open>
  Claim C3. The windows of the chunker cover the normalized text without gaps. The first
  window starts at position 0; each later window starts at the end of the one before
  minus \<open>OVERLAP\<close>, so that two consecutive windows share exactly \<open>OVERLAP\<close> characters;
  the end of a window is below the length of the text except for the last window, whose
  end is the length; the union of the spans is the whole text, and the windows put
  together again, each later one without its first \<open>OVERLAP\<close> characters, give the
  normalized text. For a text of 1000 characters whose first window is not extended to a
  sentence end, the windows are \<open>[0, 900)\<close> and \<open>[750, 1000)\<close>.
\<close>

theorem chunk_windows_cover:
  "map w_text (chunk text page)
     = map (\<lambda>(i, e). slice (clean text) i e) (chunk_spans (clean text) 0) \<and>
   rebuild (map w_text (chunk text page)) = clean text \<and>
   (t \<noteq> [] \<longrightarrow>
      chunk_spans t 0 \<noteq> [] \<and> fst (hd (chunk_spans t 0)) = 0 \<and>
      snd (last (chunk_spans t 0)) = length t) \<and>
   (Suc k < length (chunk_spans t 0) \<longrightarrow>
      fst (chunk_spans t 0 ! Suc k) = snd (chunk_spans t 0 ! k) - OVERLAP \<and>
      card ({fst (chunk_spans t 0 ! k)..<snd (chunk_spans t 0 ! k)} \<inter>
            {fst (chunk_spans t 0 ! Suc k)..<snd (chunk_spans t 0 ! Suc k)}) = OVERLAP \<and>
      snd (chunk_spans t 0 ! k) < length t) \<and>
   (\<Union>(i, e) \<in> set (chunk_spans t 0). {i..<e}) = {0..<length t} \<and>
   (length t = 1000 \<and> window_end t 0 = CHUNK_SIZE \<longrightarrow>
      chunk_spans t 0 = [(0, 900), (750, 1000)])"
proof (intro conjI impI)
  show "map w_text (chunk text page)
     = map (\<lambda>(i, e). slice (clean text) i e) (chunk_spans (clean text) 0)"
    by (rule chunk_text_spans)
  show "rebuild (map w_text (chunk text page)) = clean text"
    using spans_rebuild [of 0 "clean text"] by (simp add: chunk_text_spans)
  show "(\<Union>(i, e) \<in> set (chunk_spans t 0). {i..<e}) = {0..<length t}"
    by (rule spans_cover) simp
next
  assume "t \<noteq> []"
  then have i: "0 < length t" by simp
  show "chunk_spans t 0 \<noteq> []" "fst (hd (chunk_spans t 0)) = 0"
    using spans_hd [OF i] by simp_all
  show "snd (last (chunk_spans t 0)) = length t" by (rule spans_end [OF i])
next
  assume k: "Suc k < length (chunk_spans t 0)"
  let ?a = "fst (chunk_spans t 0 ! k)" and ?e = "snd (chunk_spans t 0 ! k)"
  let ?a' = "fst (chunk_spans t 0 ! Suc k)" and ?e' = "snd (chunk_spans t 0 ! Suc k)"
  from spans_consecutive [OF k]
  have c: "?a' = ?e - OVERLAP" "?a + CHUNK_SIZE \<le> ?e" "?e < ?e'" "?e < length t" by simp_all
  show "?a' = ?e - OVERLAP" by (rule c(1))
  show "?e < length t" by (rule c(4))
  have "{?a..<?e} \<inter> {?a'..<?e'} = {?e - OVERLAP..<?e}"
    using c by (auto simp: CHUNK_SIZE_def OVERLAP_def)
  moreover have "OVERLAP \<le> ?e" using c(2) by (simp add: CHUNK_SIZE_def OVERLAP_def)
  ultimately show "card ({?a..<?e} \<inter> {?a'..<?e'}) = OVERLAP" by simp
next
  assume a: "length t = 1000 \<and> window_end t 0 = CHUNK_SIZE"
  then have w: "window_end t 0 = 900" and l: "length t = 1000" by (simp_all add: CHUNK_SIZE_def)
  have "min (750 + CHUNK_SIZE) (length t) \<le> window_end t 750" by (rule window_end_lower)
  moreover have "window_end t 750 \<le> length t" using window_end_upper [of t 750] by simp
  ultimately have w2: "window_end t 750 = 1000" using l by (simp add: CHUNK_SIZE_def)
  have "chunk_spans t 0 = (0, 900) # chunk_spans t (900 - OVERLAP)"
    using spans_step [of 0 t] w l by simp
  moreover have "chunk_spans t 750 = [(750, 1000)]"
    using spans_last [of 750 t] w2 l by simp
  ultimately show "chunk_spans t 0 = [(0, 900), (750, 1000)]" by (simp add: OVERLAP_def)
qed

text \<open>A text of 1000 letters: no sentence end, two windows, the second from 750.\<close>

theorem chunk_windows_cover_witness:
  "replicate 1000 CHR ''a'' \<noteq> [] \<and>
   length (replicate 1000 CHR ''a'') = 1000 \<and>
   window_end (replicate 1000 CHR ''a'') 0 = CHUNK_SIZE \<and>
   chunk_spans (replicate 1000 CHR ''a'') 0 = [(0, 900), (750, 1000)] \<and>
   Suc 0 < length (chunk_spans (replicate 1000 CHR ''a'') 0) \<and>
   fst (chunk_spans (replicate 1000 CHR ''a'') 0 ! Suc 0) = 750"
proof -
  have w: "window_end (replicate 1000 CHR ''a'') 0 = CHUNK_SIZE"
    by (subst window_end_plain) (simp_all add: CHUNK_SIZE_def)
  have l: "length (replicate 1000 CHR ''a'') = 1000" by simp
  have s: "chunk_spans (replicate 1000 CHR ''a'') 0 = [(0, 900), (750, 1000)]"
    using chunk_windows_cover [of None 0 "replicate 1000 CHR ''a''" 0] w l by blast
  have n: "replicate 1000 CHR ''a'' \<noteq> []" by simp
  show ?thesis using w l s n by simp
qed

text \<open>
  Claim C4. The text of every chunk has at most \<open>CHUNK_SIZE + 120\<close> characters: the end
  of a window is at least the raw cutoff \<open>min (i + CHUNK_SIZE) (len text)\<close>, at most 120
  characters beyond it, and never beyond the end of the normalized text.
\<close>

theorem chunk_text_bounded:
  "(\<forall>w \<in> set (chunk text page). length (w_text w) \<le> CHUNK_SIZE + 120) \<and>
   min (i + CHUNK_SIZE) (length (clean text)) \<le> window_end (clean text) i \<and>
   window_end (clean text) i \<le> min (i + CHUNK_SIZE) (length (clean text)) + 120 \<and>
   window_end (clean text) i \<le> length (clean text)"
proof -
  have "length (w_text w) \<le> CHUNK_SIZE + 120" if "w \<in> set (chunk text page)" for w
  proof -
    from that obtain a e where ae: "(a, e) \<in> set (chunk_spans (clean text) 0)"
      and w: "w_text w = slice (clean text) a e"
      by (auto simp: chunk_def Let_def)
    from spans_bounds [OF ae] have "e \<le> a + CHUNK_SIZE + 120" by simp
    then show ?thesis by (simp add: w length_slice)
  qed
  then show ?thesis
    using window_end_lower [of i "clean text"] window_end_upper [of "clean text" i] by blast
qed

theorem chunk_text_bounded_witness:
  "\<lparr>w_page = 1, w_text = ''a b''\<rparr> \<in> set (chunk (Some ''a  b '') 1) \<and>
   length ''a b'' \<le> CHUNK_SIZE + 120"
proof -
  have c: "chunk (Some ''a  b '') (Suc 0) = [\<lparr>w_page = 1, w_text = ''a b''\<rparr>]"
    by code_simp
  show ?thesis using chunk_text_bounded [of "Some ''a  b ''" 1 0] by (simp add: c)
qed

text \<open>
  Claim C5. A text whose normalized form is not empty and shorter than \<open>CHUNK_SIZE\<close>
  gives exactly one window, whose text is the normalized input; a text whose normalized
  form is empty gives no window.
\<close>

theorem chunk_short_text:
  "(clean text \<noteq> [] \<and> length (clean text) < CHUNK_SIZE \<longrightarrow>
      chunk text page = [\<lparr>w_page = page, w_text = clean text\<rparr>]) \<and>
   (clean text = [] \<longrightarrow> chunk text page = [])"
proof (intro conjI impI)
  assume a: "clean text \<noteq> [] \<and> length (clean text) < CHUNK_SIZE"
  let ?t = "clean text"
  have i: "0 < length ?t" using a by simp
  have "min (0 + CHUNK_SIZE) (length ?t) \<le> window_end ?t 0" by (rule window_end_lower)
  then have "length ?t \<le> window_end ?t 0" using a by simp
  moreover have "window_end ?t 0 \<le> length ?t" using window_end_upper [of ?t 0] by simp
  ultimately have "chunk_spans ?t 0 = [(0, length ?t)]" using spans_last [OF i] by simp
  then show "chunk text page = [\<lparr>w_page = page, w_text = clean text\<rparr>]"
    by (simp add: chunk_def Let_def slice_def)
next
  assume "clean text = []"
  then show "chunk text page = []" by (simp add: chunk_def Let_def spans_stop)
qed

theorem chunk_short_text_witness:
  "clean (Some ''a  b '') \<noteq> [] \<and> length (clean (Some ''a  b '')) < CHUNK_SIZE \<and>
   chunk (Some ''a  b '') 1 = [\<lparr>w_page = 1, w_text = ''a b''\<rparr>] \<and>
   clean (Some ''  '') = [] \<and> chunk (Some ''  '') 1 = []"
proof -
  have c1: "clean (Some ''a  b '') = ''a b''" by code_simp
  have c2: "clean (Some ''  '') = []" by code_simp
  show ?thesis
    using chunk_short_text [of "Some ''a  b ''" 1] chunk_short_text [of "Some ''  ''" 1]
    by (simp add: c1 c2 CHUNK_SIZE_def)
qed

text \<open>
  Claim C10. The chunker terminates on every text: a budget of
  \<open>len text div (CHUNK_SIZE - OVERLAP) + 1\<close> iterations is enough for the loop to return,
  and it returns the windows of \<open>chunk_spans\<close>. Whenever the loop goes on (the end of the
  window is below the length of the text), the end is at least the start plus
  \<open>CHUNK_SIZE\<close>, so that the next start is at least 750 characters further and the
  distance to the end of the text decreases.
\<close>

theorem chunk_terminates:
  "chunk_fuel (length t div (CHUNK_SIZE - OVERLAP) + 1) t 0 = Some (chunk_spans t 0) \<and>
   CHUNK_SIZE - OVERLAP = 750 \<and>
   (i < length t \<and> window_end t i < length t \<longrightarrow>
      i + CHUNK_SIZE \<le> window_end t i \<and>
      i + 750 \<le> window_end t i - OVERLAP \<and>
      length t - (window_end t i - OVERLAP) < length t - i)"
proof (intro conjI impI)
  show "chunk_fuel (length t div (CHUNK_SIZE - OVERLAP) + 1) t 0 = Some (chunk_spans t 0)"
    by (rule chunk_fuel_enough) simp
  show c: "CHUNK_SIZE - OVERLAP = 750" by (simp add: CHUNK_SIZE_def OVERLAP_def)
  assume a: "i < length t \<and> window_end t i < length t"
  then have lt: "window_end t i < length t" by simp
  show "i + CHUNK_SIZE \<le> window_end t i" using lt by (rule window_end_continue)
  show "i + 750 \<le> window_end t i - OVERLAP" using next_start(1) [OF lt] c by simp
  show "length t - (window_end t i - OVERLAP) < length t - i"
    using next_start(2,3) [OF lt] by simp
qed

theorem chunk_terminates_witness:
  "0 < length (replicate 1000 CHR ''a'') \<and>
   window_end (replicate 1000 CHR ''a'') 0 < length (replicate 1000 CHR ''a'') \<and>
   0 + CHUNK_SIZE \<le> window_end (replicate 1000 CHR ''a'') 0 \<and>
   0 + 750 \<le> window_end (replicate 1000 CHR ''a'') 0 - OVERLAP"
proof -
  have w: "window_end (replicate 1000 CHR ''a'') 0 = 900"
    by (subst window_end_plain) (simp_all add: CHUNK_SIZE_def)
  have h: "0 < length (replicate 1000 CHR ''a'') \<and>
      window_end (replicate 1000 CHR ''a'') 0 < length (replicate 1000 CHR ''a'')"
    by (simp add: w)
  with chunk_terminates [of "replicate 1000 CHR ''a''" 0] show ?thesis by blast
qed

section \<open>The orchestration and the index\<close>

text \<open>
  Claim C7. For the \<open>N\<close> chunks of one run, the ids are \<open>0, 1, ..., N - 1\<close> in the
  order in which the chunks are produced: chunk \<open>k\<close> has id \<open>k\<close>, every id is below
  \<open>N\<close>, and the ids are pairwise distinct. The chunks are the windows of the pages in
  the order of the pages, so that their page numbers never decrease.
\<close>

theorem chunk_ids_sequential:
  "out_N (main it pages) = length (out_chunks (main it pages)) \<and>
   map c_id (out_chunks (main it pages)) = [0..<out_N (main it pages)] \<and>
   (\<forall>k < out_N (main it pages). c_id (out_chunks (main it pages) ! k) = k) \<and>
   (\<forall>c \<in> set (out_chunks (main it pages)). c_id c < out_N (main it pages)) \<and>
   distinct (map c_id (out_chunks (main it pages))) \<and>
   map (\<lambda>c. (c_page c, c_text c)) (out_chunks (main it pages))
     = map (\<lambda>w. (w_page w, w_text w)) (all_windows pages) \<and>
   sorted (map c_page (out_chunks (main it pages)))"
proof -
  let ?cs = "collect it pages"
  have ids: "map c_id ?cs = [0..<length ?cs]" by (rule collect_ids)
  have nth: "c_id (?cs ! k) = k" if "k < length ?cs" for k
  proof -
    have "c_id (?cs ! k) = map c_id ?cs ! k" using that by simp
    also have "\<dots> = k" using that by (simp only: ids) simp
    finally show ?thesis .
  qed
  have bound: "c_id c < length ?cs" if "c \<in> set ?cs" for c
  proof -
    from that have "c_id c \<in> set (map c_id ?cs)" by simp
    then show ?thesis by (simp only: ids) simp
  qed
  have dist: "distinct (map c_id ?cs)" by (simp only: ids) simp
  have pt: "map (\<lambda>c. (c_page c, c_text c)) ?cs = map (\<lambda>w. (w_page w, w_text w)) (all_windows pages)"
    by (rule collect_map) (simp add: tag_fields)
  have "sorted (map w_page (all_windows pages))"
    unfolding all_windows_def by (rule windows_sorted)
  then have srt: "sorted (map c_page ?cs)" by (simp only: collect_page)
  show ?thesis using ids nth bound dist pt srt by (simp add: main_fields)
qed

theorem chunk_ids_sequential_witness:
  "(1::nat) < out_N (main remdups [Some ''abc'', None, Some ''de f'']) \<and>
   c_id (out_chunks (main remdups [Some ''abc'', None, Some ''de f'']) ! 1) = 1 \<and>
   out_chunks (main remdups [Some ''abc'', None, Some ''de f'']) ! 1
     \<in> set (out_chunks (main remdups [Some ''abc'', None, Some ''de f'']))"
proof -
  have n: "length (collect remdups [Some ''abc'', None, Some ''de f'']) = 2" by code_simp
  show ?thesis
    using chunk_ids_sequential [of remdups "[Some ''abc'', None, Some ''de f'']"]
    by (simp add: n main_fields)
qed

text \<open>
  Claim C9. A page whose extracted text is the empty string, or \<open>None\<close>, gives no chunk,
  and a run over the pages with such a page among them has the chunk texts, the ids, the
  count \<open>N\<close>, the document frequencies and the index of the run without it. No error
  is involved: \<open>or_empty\<close> and \<open>chunk\<close> return on every input.
\<close>

theorem empty_page_contributes_nothing:
  "or_empty e = [] \<Longrightarrow>
   chunk (Some (or_empty e)) p = [] \<and>
   map c_text (out_chunks (main it (ps @ e # qs))) = map c_text (out_chunks (main it (ps @ qs))) \<and>
   map c_id (out_chunks (main it (ps @ e # qs))) = map c_id (out_chunks (main it (ps @ qs))) \<and>
   out_N (main it (ps @ e # qs)) = out_N (main it (ps @ qs)) \<and>
   build_df it (out_chunks (main it (ps @ e # qs))) = build_df it (out_chunks (main it (ps @ qs))) \<and>
   out_idf (main it (ps @ e # qs)) = out_idf (main it (ps @ qs))"
proof -
  assume e: "or_empty e = []"
  have t: "map c_text (collect it (ps @ e # qs)) = map c_text (collect it (ps @ qs))"
    by (simp only: collect_text empty_page_texts [OF e])
  then have "length (map c_text (collect it (ps @ e # qs)))
      = length (map c_text (collect it (ps @ qs)))" by (rule arg_cong)
  then have n: "length (collect it (ps @ e # qs)) = length (collect it (ps @ qs))" by simp
  have i: "map c_id (collect it (ps @ e # qs)) = map c_id (collect it (ps @ qs))"
    by (simp only: collect_ids n)
  have d: "build_df it (collect it (ps @ e # qs)) = build_df it (collect it (ps @ qs))"
    using t by (rule build_df_cong)
  show ?thesis using chunk_empty [OF e] t n i d by (simp add: main_fields)
qed

theorem empty_page_contributes_nothing_witness:
  "or_empty None = [] \<and> or_empty (Some []) = [] \<and>
   chunk (Some (or_empty None)) 2 = [] \<and>
   out_N (main remdups ([Some ''abc''] @ None # [Some ''de f'']))
     = out_N (main remdups ([Some ''abc''] @ [Some ''de f''])) \<and>
   out_idf (main remdups ([Some ''abc''] @ Some [] # [Some ''de f'']))
     = out_idf (main remdups ([Some ''abc''] @ [Some ''de f'']))"
proof -
  have a: "or_empty None = []" and b: "or_empty (Some []) = []" by (simp_all add: or_empty_def)
  show ?thesis
    using empty_page_contributes_nothing [OF a, of 2 remdups "[Some ''abc'']" "[Some ''de f'']"]
      empty_page_contributes_nothing [OF b, of 2 remdups "[Some ''abc'']" "[Some ''de f'']"]
      a b by blast
qed

text \<open>
  Claim C6. Tokenization is the tokenization of the specification: it lower-cases the
  text (\<open>lower\<close> sends \<open>A\<close> to \<open>Z\<close> to \<open>a\<close> to \<open>z\<close>), replaces every character that is not
  a lowercase letter \<open>a\<close> to \<open>z\<close>, a digit, whitespace or a hyphen by a space, splits on
  whitespace and discards the tokens of length at most 2. So every token is longer than
  2 and made of lowercase letters, digits and hyphens. Splitting gives nothing on
  whitespace alone, and on whitespace, a word without whitespace and a rest that is
  empty or starts with whitespace it gives the word and then the split of the rest. The
  token set of a chunk is visited once per token, so that \<open>df[w]\<close> is the number of
  chunks whose token set contains \<open>w\<close>, however often \<open>w\<close> occurs in one chunk, and \<open>w\<close> is
  a key of \<open>df\<close> exactly when that number is not 0; a token in 5 chunks has document
  frequency 5.
\<close>

theorem tokens_and_document_frequency:
  "iter_ok it \<Longrightarrow>
   toks s = toks_spec s \<and>
   lower upper_letters = lower_letters \<and>
   (\<forall>t \<in> set (toks s). 2 < length t \<and>
      (\<forall>c \<in> set t. c \<in> set lower_letters \<or> c \<in> set digit_chars \<or> c = CHR ''-'')) \<and>
   ((\<forall>c \<in> set sp. isspace c) \<longrightarrow> split sp = []) \<and>
   ((\<forall>c \<in> set sp. isspace c) \<and> u \<noteq> [] \<and> (\<forall>c \<in> set u. \<not> isspace c) \<and>
    (rest = [] \<or> isspace (hd rest)) \<longrightarrow> split (sp @ u @ rest) = u # split rest) \<and>
   lookup0 (build_df it chunks) w = doc_freq chunks w \<and>
   map_of (build_df it chunks) w
     = (if doc_freq chunks w = 0 then None else Some (doc_freq chunks w)) \<and>
   (doc_freq chunks w = 5 \<longrightarrow> map_of (build_df it chunks) w = Some 5) \<and>
   distinct (map fst (build_df it chunks))"
proof -
  assume ok: "iter_ok it"
  have 1: "toks s = toks_spec s" by (rule toks_refines_spec)
  have 2: "lower upper_letters = lower_letters" by (simp add: lower_def lower_upper_letters)
  have 3: "\<forall>t \<in> set (toks s). 2 < length t \<and>
      (\<forall>c \<in> set t. c \<in> set lower_letters \<or> c \<in> set digit_chars \<or> c = CHR ''-'')"
    using toks_props [of _ s] by (simp add: in_lower_letters in_digit_chars)
  have 4: "(\<forall>c \<in> set sp. isspace c) \<longrightarrow> split sp = []" using split_only_space by blast
  have 5: "(\<forall>c \<in> set sp. isspace c) \<and> u \<noteq> [] \<and> (\<forall>c \<in> set u. \<not> isspace c) \<and>
    (rest = [] \<or> isspace (hd rest)) \<longrightarrow> split (sp @ u @ rest) = u # split rest"
    using split_word [of sp u rest] by blast
  have 6: "lookup0 (build_df it chunks) w = doc_freq chunks w" by (rule build_df_lookup0 [OF ok])
  have 7: "map_of (build_df it chunks) w
     = (if doc_freq chunks w = 0 then None else Some (doc_freq chunks w))"
    by (rule build_df_map_of [OF ok])
  have 8: "doc_freq chunks w = 5 \<longrightarrow> map_of (build_df it chunks) w = Some 5"
    by (simp add: 7)
  have 9: "distinct (map fst (build_df it chunks))" by (rule build_df_distinct)
  from 1 2 3 4 5 6 7 8 9 show ?thesis by blast
qed

theorem tokens_and_document_frequency_witness:
  "iter_ok remdups \<and>
   toks (Some ''Alpha, alpha BETA. x-1 it'') = [''alpha'', ''alpha'', ''beta'', ''x-1''] \<and>
   ''beta'' \<in> set (toks_spec (Some ''Alpha, alpha BETA. x-1 it'')) \<and>
   2 < length ''beta'' \<and>
   isspace CHR '' '' \<and> split ''  '' = [] \<and>
   ''AB'' \<noteq> [] \<and> \<not> isspace CHR ''A'' \<and> \<not> isspace CHR ''B'' \<and> isspace (hd '' c'') \<and>
   split (''  '' @ ''AB'' @ '' c'') = ''AB'' # split '' c'' \<and>
   doc_freq (collect remdups
     [Some ''ALPHA, alpha BETA. x-1 it'', Some ''Alpha'', None, Some ''The aLPHa.'',
      Some ''alpha-alpha ALPHA'', Some ''(alpha)'']) ''alpha'' = 5 \<and>
   map_of (build_df remdups (collect remdups
     [Some ''ALPHA, alpha BETA. x-1 it'', Some ''Alpha'', None, Some ''The aLPHa.'',
      Some ''alpha-alpha ALPHA'', Some ''(alpha)''])) ''alpha'' = Some 5"
proof -
  let ?s = "Some ''Alpha, alpha BETA. x-1 it''"
  let ?cs = "collect remdups
     [Some ''ALPHA, alpha BETA. x-1 it'', Some ''Alpha'', None, Some ''The aLPHa.'',
      Some ''alpha-alpha ALPHA'', Some ''(alpha)'']"
  have t: "toks ?s = [''alpha'', ''alpha'', ''beta'', ''x-1'']" by code_simp
  have d: "doc_freq ?cs ''alpha'' = 5" by code_simp
  have sp: "\<forall>c \<in> set ''  ''. isspace c" by (simp add: isspace_def)
  have u: "''AB'' \<noteq> []" "\<forall>c \<in> set ''AB''. \<not> isspace c" "isspace (hd '' c'')"
    by (simp_all add: isspace_def)
  note th = tokens_and_document_frequency [OF iter_ok_remdups,
      of ?s "''  ''" "''AB''" "'' c''" ?cs "''alpha''"]
  from th have e: "toks ?s = toks_spec ?s" by (rule conjunct1)
  have b: "''beta'' \<in> set (toks_spec ?s)" unfolding e [symmetric] t by simp
  have l: "2 < length ''beta''"
    using th [THEN conjunct2, THEN conjunct2, THEN conjunct1] b e by simp
  have s1: "split ''  '' = []"
    using th [THEN conjunct2, THEN conjunct2, THEN conjunct2, THEN conjunct1] sp by (rule mp)
  have s2: "split (''  '' @ ''AB'' @ '' c'') = ''AB'' # split '' c''"
    using th [THEN conjunct2, THEN conjunct2, THEN conjunct2, THEN conjunct2, THEN conjunct1]
      sp u by blast
  have m: "map_of (build_df remdups ?cs) ''alpha'' = Some 5"
    using th [THEN conjunct2, THEN conjunct2, THEN conjunct2, THEN conjunct2, THEN conjunct2,
      THEN conjunct2, THEN conjunct2, THEN conjunct1] d by (rule mp)
  have k: "isspace CHR '' ''" "\<not> isspace CHR ''A''" "\<not> isspace CHR ''B''"
    by (simp_all add: isspace_def)
  from iter_ok_remdups t b l k s1 u(1,3) s2 d m show ?thesis by blast
qed

text \<open>
  Claim C1. For every token \<open>w\<close> in the \<open>idf\<close> mapping,
  \<open>idf[w] = ln((N+1)/(df[w]+1)) + 1\<close>, where \<open>N\<close> is the number of chunks and \<open>df[w]\<close> the
  number of chunks whose token set contains \<open>w\<close>; the keys are the tokens of document
  frequency at least 1, \<open>df[w] \<le> N\<close>, so \<open>idf[w] > 0\<close>; and for tokens \<open>u\<close>, \<open>v\<close> of the
  mapping, \<open>df[u] \<le> df[v]\<close> gives \<open>idf[u] \<ge> idf[v]\<close>. The weights are real numbers here.
\<close>

theorem idf_formula:
  "iter_ok it \<Longrightarrow> out = main it pages \<Longrightarrow>
   out_N out = length (out_chunks out) \<and>
   (w \<in> fst ` set (out_idf out) \<longleftrightarrow> 0 < doc_freq (out_chunks out) w) \<and>
   distinct (map fst (out_idf out)) \<and>
   (map_of (out_idf out) w = Some x \<longrightarrow>
      x = ln (real (out_N out + 1) / real (doc_freq (out_chunks out) w + 1)) + 1 \<and>
      0 < x \<and> doc_freq (out_chunks out) w \<le> out_N out) \<and>
   (map_of (out_idf out) u = Some a \<and> map_of (out_idf out) v = Some b \<and>
    doc_freq (out_chunks out) u \<le> doc_freq (out_chunks out) v \<longrightarrow> b \<le> a)"
proof -
  assume ok: "iter_ok it" and out: "out = main it pages"
  let ?cs = "collect it pages"
  let ?N = "length ?cs"
  have look: "map_of (out_idf out) z = Some y \<Longrightarrow>
      y = idf_weight ?N (doc_freq ?cs z) \<and> 0 < doc_freq ?cs z" for z y
    unfolding out idf_map_of build_df_map_of [OF ok] by (auto split: if_splits)
  have 1: "out_N out = length (out_chunks out)" by (simp add: out main_fields)
  have 2: "(w \<in> fst ` set (out_idf out)) = (0 < doc_freq (out_chunks out) w)"
    unfolding out by (rule idf_keys [OF ok])
  have "map fst (out_idf out) = map fst (build_df it ?cs)"
    by (simp add: out main_fields comp_def case_prod_unfold)
  then have 3: "distinct (map fst (out_idf out))" by (simp add: build_df_distinct)
  have 4: "x = ln (real (out_N out + 1) / real (doc_freq (out_chunks out) w + 1)) + 1 \<and>
      0 < x \<and> doc_freq (out_chunks out) w \<le> out_N out"
    if "map_of (out_idf out) w = Some x"
  proof -
    from look [OF that] have x: "x = idf_weight ?N (doc_freq ?cs w)" by simp
    have "1 \<le> idf_weight ?N (doc_freq ?cs w)" by (rule idf_weight_pos) (rule doc_freq_le)
    with x have "0 < x" by simp
    with x doc_freq_le [of ?cs w] show ?thesis
      by (simp add: out main_fields idf_weight_def)
  qed
  have 5: "b \<le> a"
    if "map_of (out_idf out) u = Some a \<and> map_of (out_idf out) v = Some b \<and>
        doc_freq (out_chunks out) u \<le> doc_freq (out_chunks out) v"
  proof -
    from that look [of u a] look [of v b]
    have "a = idf_weight ?N (doc_freq ?cs u)" "b = idf_weight ?N (doc_freq ?cs v)"
      "doc_freq ?cs u \<le> doc_freq ?cs v" by (simp_all add: out main_fields)
    then show ?thesis by (simp add: idf_weight_mono)
  qed
  from 1 2 3 4 5 show ?thesis by blast
qed

theorem idf_formula_witness:
  "iter_ok remdups \<and>
   map_of (out_idf (main remdups [Some ''alpha beta'', Some ''alpha''])) ''alpha'' = Some 1 \<and>
   map_of (out_idf (main remdups [Some ''alpha beta'', Some ''alpha''])) ''beta''
     = Some (ln (3 / 2) + 1) \<and>
   doc_freq (out_chunks (main remdups [Some ''alpha beta'', Some ''alpha''])) ''beta''
     \<le> doc_freq (out_chunks (main remdups [Some ''alpha beta'', Some ''alpha''])) ''alpha'' \<and>
   (1::real) \<le> ln (3 / 2) + 1"
proof -
  let ?out = "main remdups [Some ''alpha beta'', Some ''alpha'']"
  have n: "length (collect remdups [Some ''alpha beta'', Some ''alpha'']) = 2" by code_simp
  have d: "build_df remdups (collect remdups [Some ''alpha beta'', Some ''alpha''])
      = [(''alpha'', 2), (''beta'', 1)]" by code_simp
  have a: "map_of (out_idf ?out) ''alpha'' = Some 1"
    and b: "map_of (out_idf ?out) ''beta'' = Some (ln (3 / 2) + 1)"
    by (simp_all add: main_fields n d idf_weight_def)
  have fa: "doc_freq (out_chunks ?out) ''alpha'' = 2"
    and fb: "doc_freq (out_chunks ?out) ''beta'' = 1"
    using idf_formula [OF iter_ok_remdups refl, of "[Some ''alpha beta'', Some ''alpha'']" "''alpha''" 1]
      idf_formula [OF iter_ok_remdups refl, of "[Some ''alpha beta'', Some ''alpha'']" "''beta''" "ln (3 / 2) + 1"]
      a b
    by (simp_all add: main_fields n)
  have "(1::real) \<le> ln (3 / 2) + 1"
    using idf_formula [OF iter_ok_remdups refl,
      of "[Some ''alpha beta'', Some ''alpha'']" _ _ "''beta''" "ln (3 / 2) + 1" "''alpha''" 1]
      a b fa fb by simp
  with a b fa fb show ?thesis by (simp add: iter_ok_remdups)
qed

text \<open>
  Claim C2, as stated, fails: two runs on the same page that iterate the set of the two
  factions \<open>Alliance\<close> and \<open>Empire\<close> in different orders write different chunk lists.
\<close>

theorem two_runs_differ:
  "iter_ok remdups \<and> iter_ok (rev \<circ> remdups) \<and>
   out_chunks (main remdups [Some ''Alliance Empire''])
     \<noteq> out_chunks (main (rev \<circ> remdups) [Some ''Alliance Empire''])"
proof -
  have a: "map c_factions (collect remdups [Some ''Alliance Empire''])
      = [[''Alliance'', ''Empire'']]" by code_simp
  have b: "map c_factions (collect (rev \<circ> remdups) [Some ''Alliance Empire''])
      = [[''Empire'', ''Alliance'']]" by code_simp
  have "collect remdups [Some ''Alliance Empire'']
      \<noteq> collect (rev \<circ> remdups) [Some ''Alliance Empire'']"
  proof
    assume "collect remdups [Some ''Alliance Empire'']
      = collect (rev \<circ> remdups) [Some ''Alliance Empire'']"
    then have "map c_factions (collect remdups [Some ''Alliance Empire''])
      = map c_factions (collect (rev \<circ> remdups) [Some ''Alliance Empire''])" by simp
    then show False by (simp only: a b) simp
  qed
  then show ?thesis by (simp add: main_fields iter_ok_remdups iter_ok_rev_remdups)
qed

text \<open>
  Claim C2, amended. Two runs on the same pages agree up to the order in which sets are
  iterated: they give the same ids, pages and texts of the chunks, the same systems,
  factions and dates as sets, the same \<open>N\<close> and the same weight for every token; with one
  and the same iteration order the whole outputs are equal.
\<close>

theorem two_runs_agree_up_to_order:
  "iter_ok it1 \<Longrightarrow> iter_ok it2 \<Longrightarrow> o1 = main it1 pages \<Longrightarrow> o2 = main it2 pages \<Longrightarrow>
   map c_id (out_chunks o1) = map c_id (out_chunks o2) \<and>
   map c_page (out_chunks o1) = map c_page (out_chunks o2) \<and>
   map c_text (out_chunks o1) = map c_text (out_chunks o2) \<and>
   map (set \<circ> c_systems) (out_chunks o1) = map (set \<circ> c_systems) (out_chunks o2) \<and>
   map (set \<circ> c_factions) (out_chunks o1) = map (set \<circ> c_factions) (out_chunks o2) \<and>
   map (set \<circ> c_dates) (out_chunks o1) = map (set \<circ> c_dates) (out_chunks o2) \<and>
   out_N o1 = out_N o2 \<and>
   map_of (out_idf o1) = map_of (out_idf o2) \<and>
   (it1 = it2 \<longrightarrow> o1 = o2)"
proof -
  assume ok1: "iter_ok it1" and ok2: "iter_ok it2"
    and o1: "o1 = main it1 pages" and o2: "o2 = main it2 pages"
  have n: "length (collect it1 pages) = length (collect it2 pages)"
    by (simp add: collect_length)
  have i: "map c_id (collect it1 pages) = map c_id (collect it2 pages)"
    by (simp only: collect_ids n)
  have p: "map c_page (collect it1 pages) = map c_page (collect it2 pages)"
    by (simp only: collect_page)
  have t: "map c_text (collect it1 pages) = map c_text (collect it2 pages)"
    by (simp only: collect_text)
  have "map_of (build_df it1 (collect it1 pages)) w = map_of (build_df it2 (collect it2 pages)) w"
    for w
    by (simp only: build_df_map_of [OF ok1] build_df_map_of [OF ok2] doc_freq_texts [OF t])
  then have "map_of (out_idf o1) w = map_of (out_idf o2) w" for w
    by (simp only: o1 o2 idf_map_of n)
  then have m: "map_of (out_idf o1) = map_of (out_idf o2)" by (rule ext)
  have e: "it1 = it2 \<longrightarrow> o1 = o2" by (simp add: o1 o2)
  show ?thesis
    using n i p t m e collect_sets [OF ok1 ok2, of pages]
    by (simp add: o1 o2 main_fields)
qed

theorem two_runs_agree_up_to_order_witness:
  "iter_ok remdups \<and> iter_ok (rev \<circ> remdups) \<and>
   map (set \<circ> c_factions) (out_chunks (main remdups [Some ''Alliance Empire'']))
     = map (set \<circ> c_factions) (out_chunks (main (rev \<circ> remdups) [Some ''Alliance Empire''])) \<and>
   map_of (out_idf (main remdups [Some ''Alliance Empire'']))
     = map_of (out_idf (main (rev \<circ> remdups) [Some ''Alliance Empire''])) \<and>
   out_N (main remdups [Some ''Alliance Empire''])
     = out_N (main remdups [Some ''Alliance Empire''])"
  using two_runs_agree_up_to_order [OF iter_ok_remdups iter_ok_rev_remdups refl refl,
      of "[Some ''Alliance Empire'']"]
    two_runs_agree_up_to_order [OF iter_ok_remdups iter_ok_remdups refl refl,
      of "[Some ''Alliance Empire'']"]
    iter_ok_remdups iter_ok_rev_remdups
  by blast

text \<open>
  Claim C8. The page \<open>Sector Alpha was claimed by the Alliance on 2024-03-01. Expansion
  continued.\<close>, with \<open>CHUNK_SIZE = 900\<close> and \<open>OVERLAP = 150\<close>, gives a single chunk with
  that text, whose dates are \<open>{2024-03-01}\<close> and whose factions are \<open>{Alliance}\<close>.
\<close>

theorem scenario_sector_alpha:
  "iter_ok it \<Longrightarrow>
   map c_text (out_chunks (main it
      [Some ''Sector Alpha was claimed by the Alliance on 2024-03-01. Expansion continued.'']))
     = [''Sector Alpha was claimed by the Alliance on 2024-03-01. Expansion continued.''] \<and>
   map c_dates (out_chunks (main it
      [Some ''Sector Alpha was claimed by the Alliance on 2024-03-01. Expansion continued.'']))
     = [[''2024-03-01'']] \<and>
   map c_factions (out_chunks (main it
      [Some ''Sector Alpha was claimed by the Alliance on 2024-03-01. Expansion continued.'']))
     = [[''Alliance'']] \<and>
   map (set \<circ> c_dates) (out_chunks (main it
      [Some ''Sector Alpha was claimed by the Alliance on 2024-03-01. Expansion continued.'']))
     = [{''2024-03-01''}] \<and>
   map (set \<circ> c_factions) (out_chunks (main it
      [Some ''Sector Alpha was claimed by the Alliance on 2024-03-01. Expansion continued.'']))
     = [{''Alliance''}]"
proof -
  assume ok: "iter_ok it"
  let ?s = "''Sector Alpha was claimed by the Alliance on 2024-03-01. Expansion continued.''"
  have w: "all_windows [Some ?s] = [\<lparr>w_page = 1, w_text = ?s\<rparr>]" by code_simp
  have d: "findall DATE_PAT ?s = [''2024-03-01'']" by code_simp
  have f: "findall FACTION_PAT ?s = [''Alliance'']" by code_simp
  have t: "map c_text (collect it [Some ?s]) = [?s]" by (simp only: collect_text w) simp
  have "map c_dates (collect it [Some ?s])
      = map (\<lambda>w. it (findall DATE_PAT (w_text w))) (all_windows [Some ?s])"
    by (rule collect_map) (rule tag_fields)
  then have cd: "map c_dates (collect it [Some ?s]) = [[''2024-03-01'']]"
    by (simp only: w) (simp add: d iter_single [OF ok])
  have "map c_factions (collect it [Some ?s])
      = map (\<lambda>w. it (findall FACTION_PAT (w_text w))) (all_windows [Some ?s])"
    by (rule collect_map) (rule tag_fields)
  then have cf: "map c_factions (collect it [Some ?s]) = [[''Alliance'']]"
    by (simp only: w) (simp add: f iter_single [OF ok])
  have sd: "map (set \<circ> c_dates) (collect it [Some ?s]) = [{''2024-03-01''}]"
    using arg_cong [OF cd, of "map set"] by simp
  have sf: "map (set \<circ> c_factions) (collect it [Some ?s]) = [{''Alliance''}]"
    using arg_cong [OF cf, of "map set"] by simp
  show ?thesis unfolding main_fields using t cd cf sd sf by blast
qed

theorem scenario_sector_alpha_witness:
  "iter_ok remdups \<and>
   map c_dates (out_chunks (main remdups
      [Some ''Sector Alpha was claimed by the Alliance on 2024-03-01. Expansion continued.'']))
     = [[''2024-03-01'']]"
  using scenario_sector_alpha [OF iter_ok_remdups] iter_ok_remdups by blast

end
